theory Spec2Isabelle
  imports Main "HOL-Library.Word"
begin

unbundle bit_operations_syntax

chapter \<open>react-form-autosave: the persistence engine\<close>

text \<open>
  A shallow embedding of the persistence engine of react-form-autosave 0.1.2:
  the history stack (history/historyManager.ts), the save scheduler
  (middleware/debounce.ts), the merge engine (middleware/merge.ts), validation and
  migration (middleware/validate.ts), the transform pipeline (middleware/transform.ts),
  the sync manager (sync/syncManager.ts) and the load and save paths of the hook
  useFormPersist. All definitions come first, the theorems follow.
\<close>

section \<open>History manager (history/historyManager.ts)\<close>


text \<open>Array.prototype.slice(0, e): a negative end counts from the end of the array.\<close>

definition slice0 :: "'a list \<Rightarrow> int \<Rightarrow> 'a list" where
  "slice0 xs e = (if e < 0 then take (nat (int (length xs) + e)) xs else take (nat e) xs)"

text \<open>Array.prototype.shift(): drops the first element, does nothing on an empty array.\<close>

definition shift :: "'a list \<Rightarrow> 'a list" where
  "shift xs = (case xs of [] \<Rightarrow> [] | _ # rest \<Rightarrow> rest)"














text \<open>
  The hook useFormPersist keeps its own history in two state cells and updates them in
  setState: \<open>setHistory\<close> slices at the \<open>historyIndex\<close> the callback closed over,
  \<open>setHistoryIndex\<close> increments the cell's value and caps it at \<open>maxHistory - 1\<close>.
\<close>

definition hook_setHistory :: "int \<Rightarrow> int \<Rightarrow> 'a \<Rightarrow> 'a list \<Rightarrow> 'a list" where
  "hook_setHistory maxHistory historyIndex newState prev =
     (let newHistory = slice0 prev (historyIndex + 1) @ [newState]
      in if int (length newHistory) > maxHistory then shift newHistory else newHistory)"

definition hook_setHistoryIndex :: "int \<Rightarrow> int \<Rightarrow> int" where
  "hook_setHistoryIndex maxHistory prev = min (prev + 1) (maxHistory - 1)"


text \<open>
  The two cells as a pair \<open>(history, historyIndex)\<close>. setState, undo and redo are
  callbacks created in a render and close over that render's values of the cells
  (\<open>historyIndex\<close> and \<open>history\<close> are among their dependencies); the updates they
  enqueue are applied in order, an updater function to the latest value of its cell, a
  plain value by overwriting. \<open>rendered\<close> are the values the callbacks closed over,
  \<open>cells\<close> the latest ones. reset writes the initial state kept in
  \<open>initialStateRef\<close>.
\<close>

type_synonym 'a hook_cells = "'a list \<times> int"

datatype 'a hook_call = SetState 'a | HookUndo | HookRedo | HookReset

definition hook_call_update ::
    "int \<Rightarrow> 'a \<Rightarrow> 'a hook_cells \<Rightarrow> 'a hook_call \<Rightarrow> 'a hook_cells \<Rightarrow> 'a hook_cells" where
  "hook_call_update maxHistory initial rendered call cells =
     (case call of
        SetState newState \<Rightarrow>
          (hook_setHistory maxHistory (snd rendered) newState (fst cells),
           hook_setHistoryIndex maxHistory (snd cells))
      | HookUndo \<Rightarrow>
          if \<not> (snd rendered > 0) then cells else (fst cells, snd rendered - 1)
      | HookRedo \<Rightarrow>
          if \<not> (snd rendered < int (length (fst rendered)) - 1) then cells
          else (fst cells, snd rendered + 1)
      | HookReset \<Rightarrow> ([initial], 0))"

text \<open>
  The calls made during one render, and a sequence of renders; each render starts from
  the cells the previous one left.
\<close>

definition hook_render ::
    "int \<Rightarrow> 'a \<Rightarrow> 'a hook_call list \<Rightarrow> 'a hook_cells \<Rightarrow> 'a hook_cells" where
  "hook_render maxHistory initial calls cells =
     foldl (\<lambda>latest call. hook_call_update maxHistory initial cells call latest) cells calls"

fun hook_run ::
    "int \<Rightarrow> 'a \<Rightarrow> 'a hook_call list list \<Rightarrow> 'a hook_cells \<Rightarrow> 'a hook_cells" where
  "hook_run maxHistory initial [] cells = cells"
| "hook_run maxHistory initial (calls # renders) cells =
     hook_run maxHistory initial renders (hook_render maxHistory initial calls cells)"

section \<open>Save scheduler (middleware/debounce.ts)\<close>

text \<open>
  The host environment of the scheduler: the clock read by Date.now(), the timers
  created by setTimeout, and the underlying callback, which is recorded in a log.
  A pending timer is its due time and the number of timers created before it; the
  event loop runs pending timers by due time, and in creation order at equal due times.
\<close>

type_synonym timer = "int \<times> nat"

record 'a debounce_vars =
  d_timeoutId :: "timer option"
  d_lastArgs :: "'a option"

record 'a throttle_vars =
  t_lastCall :: int
  t_timeoutId :: "timer option"
  t_lastArgs :: "'a option"

record 'a sched =
  now :: int
  timers_created :: nat
  invoked :: "(int \<times> 'a) list"
  deb :: "'a debounce_vars"
  thr :: "'a throttle_vars"

text \<open>The underlying callback: each invocation is logged with its time and arguments.\<close>

definition callback :: "'a \<Rightarrow> 'a sched \<Rightarrow> 'a sched" where
  "callback args s = s\<lparr>invoked := invoked s @ [(now s, args)]\<rparr>"

text \<open>setTimeout(f, delay): a negative delay counts as 0.\<close>

definition setTimeout :: "int \<Rightarrow> 'a sched \<Rightarrow> timer \<times> 'a sched" where
  "setTimeout delay s =
     ((now s + max 0 delay, timers_created s), s\<lparr>timers_created := timers_created s + 1\<rparr>)"

subsection \<open>createDebouncedFn\<close>

definition debounce_cancel :: "'a sched \<Rightarrow> 'a sched" where
  "debounce_cancel s = s\<lparr>deb := \<lparr>d_timeoutId = None, d_lastArgs = None\<rparr>\<rparr>"

definition debounce_flush :: "'a sched \<Rightarrow> 'a sched" where
  "debounce_flush s =
     (case (d_timeoutId (deb s), d_lastArgs (deb s)) of
        (Some _, Some argsToUse) \<Rightarrow> callback argsToUse (debounce_cancel s)
      | _ \<Rightarrow> s)"

definition debounce_pending :: "'a sched \<Rightarrow> bool" where
  "debounce_pending s = (d_timeoutId (deb s) \<noteq> None)"

definition debounced :: "int \<Rightarrow> 'a \<Rightarrow> 'a sched \<Rightarrow> 'a sched" where
  "debounced wait args s =
     (let (tid, s') = setTimeout wait s
      in s'\<lparr>deb := \<lparr>d_timeoutId = Some tid, d_lastArgs = Some args\<rparr>\<rparr>)"

text \<open>The function handed to setTimeout by \<open>debounced\<close>.\<close>

definition debounce_timer :: "'a sched \<Rightarrow> 'a sched" where
  "debounce_timer s =
     (case d_lastArgs (deb s) of
        None \<Rightarrow> s\<lparr>deb := (deb s)\<lparr>d_timeoutId := None\<rparr>\<rparr>
      | Some argsToUse \<Rightarrow>
          callback argsToUse (s\<lparr>deb := \<lparr>d_timeoutId = None, d_lastArgs = None\<rparr>\<rparr>))"

subsection \<open>createThrottledFn\<close>

definition throttle_cancel :: "'a sched \<Rightarrow> 'a sched" where
  "throttle_cancel s = s\<lparr>thr := (thr s)\<lparr>t_timeoutId := None, t_lastArgs := None\<rparr>\<rparr>"

definition throttled :: "int \<Rightarrow> 'a \<Rightarrow> 'a sched \<Rightarrow> 'a sched" where
  "throttled interval args s =
     (let remaining = interval - (now s - t_lastCall (thr s));
          s1 = s\<lparr>thr := (thr s)\<lparr>t_lastArgs := Some args\<rparr>\<rparr>
      in if remaining \<le> 0 then
           callback args (s1\<lparr>thr := (thr s1)\<lparr>t_timeoutId := None, t_lastCall := now s\<rparr>\<rparr>)
         else if t_timeoutId (thr s1) = None then
           (let (tid, s2) = setTimeout remaining s1
            in s2\<lparr>thr := (thr s2)\<lparr>t_timeoutId := Some tid\<rparr>\<rparr>)
         else s1)"

text \<open>The function handed to setTimeout by \<open>throttled\<close>.\<close>

definition throttle_timer :: "'a sched \<Rightarrow> 'a sched" where
  "throttle_timer s =
     (let s1 = s\<lparr>thr := (thr s)\<lparr>t_lastCall := now s, t_timeoutId := None\<rparr>\<rparr>
      in case t_lastArgs (thr s1) of
           None \<Rightarrow> s1
         | Some a \<Rightarrow> (let s2 = callback a s1 in s2\<lparr>thr := (thr s2)\<lparr>t_lastArgs := None\<rparr>\<rparr>))"

subsection \<open>createSaveController\<close>

text \<open>
  \<open>!throttleInterval\<close> holds for an absent interval and for 0; the controller is then
  the debounced function alone.
\<close>

definition throttle_off :: "int option \<Rightarrow> bool" where
  "throttle_off throttleInterval = (throttleInterval = None \<or> throttleInterval = Some 0)"

definition createSaveController :: "int \<Rightarrow> 'a sched" where
  "createSaveController t0 =
     \<lparr>now = t0, timers_created = 0, invoked = [],
      deb = \<lparr>d_timeoutId = None, d_lastArgs = None\<rparr>,
      thr = \<lparr>t_lastCall = 0, t_timeoutId = None, t_lastArgs = None\<rparr>\<rparr>"

definition save :: "int \<Rightarrow> int option \<Rightarrow> 'a \<Rightarrow> 'a sched \<Rightarrow> 'a sched" where
  "save debounceWait throttleInterval args s =
     (case throttleInterval of
        None \<Rightarrow> debounced debounceWait args s
      | Some interval \<Rightarrow>
          if interval = 0 then debounced debounceWait args s
          else throttled interval args (debounced debounceWait args s))"

definition controller_cancel :: "int option \<Rightarrow> 'a sched \<Rightarrow> 'a sched" where
  "controller_cancel throttleInterval s =
     (if throttle_off throttleInterval then debounce_cancel s
      else throttle_cancel (debounce_cancel s))"

definition controller_flush :: "'a sched \<Rightarrow> 'a sched" where
  "controller_flush s = debounce_flush s"

definition controller_pending :: "'a sched \<Rightarrow> bool" where
  "controller_pending s = debounce_pending s"

subsection \<open>The event loop\<close>

datatype timer_owner = DebounceTimer | ThrottleTimer

definition timer_before :: "timer \<Rightarrow> timer \<Rightarrow> bool" where
  "timer_before a b = (fst a < fst b \<or> (fst a = fst b \<and> snd a \<le> snd b))"

definition next_timer :: "'a sched \<Rightarrow> (timer_owner \<times> int) option" where
  "next_timer s =
     (case (d_timeoutId (deb s), t_timeoutId (thr s)) of
        (None, None) \<Rightarrow> None
      | (Some d, None) \<Rightarrow> Some (DebounceTimer, fst d)
      | (None, Some t) \<Rightarrow> Some (ThrottleTimer, fst t)
      | (Some d, Some t) \<Rightarrow>
          if timer_before d t then Some (DebounceTimer, fst d) else Some (ThrottleTimer, fst t))"

definition fire :: "timer_owner \<Rightarrow> int \<Rightarrow> 'a sched \<Rightarrow> 'a sched" where
  "fire owner due s =
     (let s1 = s\<lparr>now := max (now s) due\<rparr>
      in case owner of DebounceTimer \<Rightarrow> debounce_timer s1 | ThrottleTimer \<Rightarrow> throttle_timer s1)"

definition pending_timers :: "'a sched \<Rightarrow> nat" where
  "pending_timers s =
     (if d_timeoutId (deb s) = None then 0 else 1) +
     (if t_timeoutId (thr s) = None then 0 else 1)"

text \<open>Run every timer that is due at or before \<open>target\<close>, earliest first.\<close>

function run_timers :: "int \<Rightarrow> 'a sched \<Rightarrow> 'a sched" where
  "run_timers target s =
     (case next_timer s of
        None \<Rightarrow> s
      | Some (owner, due) \<Rightarrow>
          if due \<le> target then run_timers target (fire owner due s) else s)"
  by pat_completeness auto
termination
proof (relation "measure (\<lambda>(target, s). pending_timers s)")
  show "wf (measure (\<lambda>(target, s :: 'a sched). pending_timers s))"
    by simp
next
  fix target :: int and s :: "'a sched" and x2 owner due
  assume "next_timer s = Some x2" and "(owner, due) = x2"
  then have "next_timer s = Some (owner, due)" by simp
  then have "pending_timers (fire owner due s) < pending_timers s"
    by (cases owner)
       (auto simp: next_timer_def fire_def pending_timers_def debounce_timer_def
          throttle_timer_def callback_def Let_def split: option.splits if_splits)
  then show "((target, fire owner due s), (target, s))
               \<in> measure (\<lambda>(target, s). pending_timers s)"
    by simp
qed

text \<open>Time passes: the timers that fall due run, then the clock stands at the new time.\<close>

definition advance :: "int \<Rightarrow> 'a sched \<Rightarrow> 'a sched" where
  "advance dt s = (run_timers (now s + dt) s)\<lparr>now := now s + dt\<rparr>"

text \<open>Quiescence: no further call is made and every pending timer runs.\<close>

function settle :: "'a sched \<Rightarrow> 'a sched" where
  "settle s =
     (case next_timer s of
        None \<Rightarrow> s
      | Some (owner, due) \<Rightarrow> settle (fire owner due s))"
  by pat_completeness auto
termination
proof (relation "measure pending_timers")
  show "wf (measure (pending_timers :: 'a sched \<Rightarrow> nat))"
    by simp
next
  fix s :: "'a sched" and x2 owner due
  assume "next_timer s = Some x2" and "(owner, due) = x2"
  then have "next_timer s = Some (owner, due)" by simp
  then have "pending_timers (fire owner due s) < pending_timers s"
    by (cases owner)
       (auto simp: next_timer_def fire_def pending_timers_def debounce_timer_def
          throttle_timer_def callback_def Let_def split: option.splits if_splits)
  then show "(fire owner due s, s) \<in> measure pending_timers"
    by simp
qed

text \<open>
  A burst: each call is made \<open>gap\<close> milliseconds after the previous one (the first one
  \<open>gap\<close> milliseconds after the state it starts from).
\<close>

fun burst :: "('a \<Rightarrow> 'a sched \<Rightarrow> 'a sched) \<Rightarrow> (int \<times> 'a) list \<Rightarrow> 'a sched \<Rightarrow> 'a sched" where
  "burst f [] s = s"
| "burst f ((gap, args) # rest) s = burst f rest (f args (advance gap s))"


text \<open>No timer of the debounced function and none of the throttled one is pending.\<close>

definition quiescent :: "'a sched \<Rightarrow> bool" where
  "quiescent s = (d_timeoutId (deb s) = None \<and> t_timeoutId (thr s) = None)"

text \<open>The state in the middle of a burst on the debounced function alone.\<close>

definition debounce_armed :: "int \<Rightarrow> 'a \<Rightarrow> 'a sched \<Rightarrow> bool" where
  "debounce_armed w a s =
     (map_option fst (d_timeoutId (deb s)) = Some (now s + w) \<and>
      d_lastArgs (deb s) = Some a \<and> t_timeoutId (thr s) = None)"

text \<open>
  The state in the middle of a burst on the combined controller, after the second call:
  both timers are pending, the throttle's one at the end of the window opened at \<open>t1\<close>.
\<close>

definition both_armed :: "int \<Rightarrow> int \<Rightarrow> int \<Rightarrow> 'a \<Rightarrow> 'a sched \<Rightarrow> bool" where
  "both_armed w interval t1 a s =
     (map_option fst (d_timeoutId (deb s)) = Some (now s + w) \<and>
      d_lastArgs (deb s) = Some a \<and>
      map_option fst (t_timeoutId (thr s)) = Some (t1 + interval) \<and>
      t_lastArgs (thr s) = Some a \<and> t_lastCall (thr s) = t1)"

section \<open>JavaScript values\<close>

text \<open>
  The values the engine stores and merges: what JSON.parse returns, and \<open>undefined\<close>,
  which a property read of an absent key returns. Numbers are integers here (time
  stamps in milliseconds, versions, numeric payloads). An object is the list of its own
  enumerable properties in enumeration order; a well-formed object has distinct keys.
  Property names and payload strings are opaque to the engine.
\<close>

datatype jsval =
    JUndefined
  | JNull
  | JBool bool
  | JNum int
  | JStr string
  | JArr "jsval list"
  | JObj "(string \<times> jsval) list"

fun wf_val :: "jsval \<Rightarrow> bool" where
  "wf_val (JArr xs) = list_all wf_val xs"
| "wf_val (JObj kvs) = (distinct (map fst kvs) \<and> list_all (\<lambda>kv. wf_val (snd kv)) kvs)"
| "wf_val _ = True"

text \<open>Decimal digits of an array index, as Object.keys of an array returns them.\<close>

fun show_nat :: "nat \<Rightarrow> string" where
  "show_nat n = (if n < 10 then [char_of (48 + n)]
                 else show_nat (n div 10) @ [char_of (48 + n mod 10)])"

declare show_nat.simps [simp del]

text \<open>
  The own enumerable properties that an object spread \<open>{...v}\<close> copies: the entries of an
  object, the elements of an array and the characters of a string under their indices,
  nothing for the other values.
\<close>

definition own_entries :: "jsval \<Rightarrow> (string \<times> jsval) list" where
  "own_entries v =
     (case v of
        JObj kvs \<Rightarrow> kvs
      | JArr xs \<Rightarrow> map (\<lambda>i. (show_nat i, xs ! i)) [0..<length xs]
      | JStr s \<Rightarrow> map (\<lambda>i. (show_nat i, JStr [s ! i])) [0..<length s]
      | _ \<Rightarrow> [])"

definition own_lookup :: "jsval \<Rightarrow> string \<Rightarrow> jsval option" where
  "own_lookup v key = map_of (own_entries v) key"

text \<open>
  \<open>obj[key]\<close> on a plain object: the own property, else \<open>undefined\<close>. (A key that only
  Object.prototype defines reads as a function or, for \<open>__proto__\<close>, as the prototype;
  the merge functions read such a key only to test it with isPlainObject, after the
  dangerous keys have been skipped, and a function is not a plain object.)
\<close>

definition get_prop :: "jsval \<Rightarrow> string \<Rightarrow> jsval" where
  "get_prop v key = (case own_lookup v key of Some x \<Rightarrow> x | None \<Rightarrow> JUndefined)"

text \<open>\<open>result[key] = value\<close>: an existing key keeps its place, a new key is appended.\<close>

fun set_prop :: "(string \<times> jsval) list \<Rightarrow> string \<Rightarrow> jsval \<Rightarrow> (string \<times> jsval) list" where
  "set_prop [] key v = [(key, v)]"
| "set_prop ((k, x) # rest) key v =
     (if k = key then (key, v) # rest else (k, x) # set_prop rest key v)"

text \<open>Object spread into a result under construction.\<close>

fun spread :: "(string \<times> jsval) list \<Rightarrow> (string \<times> jsval) list \<Rightarrow> (string \<times> jsval) list" where
  "spread [] result = result"
| "spread ((k, x) # rest) result = spread rest (set_prop result k x)"

section \<open>Merge engine (middleware/merge.ts)\<close>

definition isPlainObject :: "jsval \<Rightarrow> bool" where
  "isPlainObject v = (case v of JObj _ \<Rightarrow> True | _ \<Rightarrow> False)"

text \<open>\<open>a ?? b\<close>\<close>

definition nullish :: "jsval \<Rightarrow> jsval \<Rightarrow> jsval" where
  "nullish a b = (if a = JNull \<or> a = JUndefined then b else a)"

definition shallowMerge :: "jsval \<Rightarrow> jsval \<Rightarrow> jsval" where
  "shallowMerge stored initial =
     (if \<not> isPlainObject initial then nullish stored initial
      else JObj (spread (own_entries stored) (spread (own_entries initial) [])))"

definition dangerousKeys :: "string list" where
  "dangerousKeys = [''__proto__'', ''constructor'', ''prototype'']"

fun deepMerge :: "jsval \<Rightarrow> jsval \<Rightarrow> jsval"
  and deepMerge_loop ::
    "(string \<times> jsval) list \<Rightarrow> jsval \<Rightarrow> (string \<times> jsval) list \<Rightarrow> (string \<times> jsval) list"
where
  "deepMerge stored initial =
     (case stored of
        JObj entries \<Rightarrow>
          if \<not> isPlainObject initial then nullish stored initial
          else JObj (deepMerge_loop entries initial (spread (own_entries initial) []))
      | _ \<Rightarrow> nullish stored initial)"
| "deepMerge_loop [] initial result = result"
| "deepMerge_loop ((key, storedValue) # rest) initial result =
     (if key \<in> set dangerousKeys then deepMerge_loop rest initial result
      else
        let initialValue = get_prop initial key
        in if isPlainObject storedValue \<and> isPlainObject initialValue
           then deepMerge_loop rest initial
                  (set_prop result key (deepMerge storedValue initialValue))
           else if storedValue \<noteq> JUndefined
           then deepMerge_loop rest initial (set_prop result key storedValue)
           else deepMerge_loop rest initial result)"


text \<open>A value mentions one of the three keys at some nesting depth.\<close>

fun has_dangerous_key :: "jsval \<Rightarrow> bool" where
  "has_dangerous_key (JObj kvs) =
     list_ex (\<lambda>kv. fst kv \<in> set dangerousKeys \<or> has_dangerous_key (snd kv)) kvs"
| "has_dangerous_key (JArr xs) = list_ex has_dangerous_key xs"
| "has_dangerous_key _ = False"

text \<open>
  The value reached by reading the keys of \<open>path\<close> one after the other, and the paths
  along which deepMerge recurses: at every step both the stored and the initial value
  are plain objects and the key is not skipped.
\<close>

fun at_path :: "jsval \<Rightarrow> string list \<Rightarrow> jsval" where
  "at_path v [] = v"
| "at_path v (key # path) = at_path (get_prop v key) path"

fun merged_at :: "jsval \<Rightarrow> jsval \<Rightarrow> string list \<Rightarrow> bool" where
  "merged_at stored initial [] = (isPlainObject stored \<and> isPlainObject initial)"
| "merged_at stored initial (key # path) =
     (isPlainObject stored \<and> isPlainObject initial \<and> key \<notin> set dangerousKeys \<and>
      merged_at (get_prop stored key) (get_prop initial key) path)"

text \<open>
  What one round of the loop of deepMerge leaves under \<open>key\<close>, given the stored entry
  for that key (if any) and what the result held before.
\<close>

definition merge_entry :: "jsval option \<Rightarrow> jsval \<Rightarrow> string \<Rightarrow> jsval option \<Rightarrow> jsval option" where
  "merge_entry storedEntry initial key before =
     (case storedEntry of
        None \<Rightarrow> before
      | Some storedValue \<Rightarrow>
          if key \<in> set dangerousKeys then before
          else if isPlainObject storedValue \<and> isPlainObject (get_prop initial key)
          then Some (deepMerge storedValue (get_prop initial key))
          else if storedValue \<noteq> JUndefined then Some storedValue
          else before)"

text \<open>The own keys of a value are pairwise different.\<close>

definition distinct_keys :: "jsval \<Rightarrow> bool" where
  "distinct_keys v = distinct (map fst (own_entries v))"

section \<open>Validation and migration (middleware/validate.ts)\<close>

text \<open>
  A value thrown by JavaScript code: an Error object with its name and message, or any
  other value, of which the engine only ever takes the text \<open>String(e)\<close>.
\<close>

datatype thrown = Error (error_name: string) (error_message: string) | Thrown string

datatype PersistError =
    STORAGE_FULL | QUOTA_EXCEEDED | CORRUPTED_DATA | PARSE_ERROR
  | VALIDATION_FAILED | MIGRATION_FAILED | UNKNOWN

record PersistErrorInfo =
  info_type :: PersistError
  info_key :: string
  info_message :: string
  info_error :: "thrown option"

text \<open>The values that count as false in a condition.\<close>

definition truthy :: "jsval \<Rightarrow> bool" where
  "truthy v = (v \<noteq> JUndefined \<and> v \<noteq> JNull \<and> v \<noteq> JBool False \<and> v \<noteq> JNum 0 \<and> v \<noteq> JStr [])"

definition typeof_object :: "jsval \<Rightarrow> bool" where
  "typeof_object v = (case v of JNull \<Rightarrow> True | JArr _ \<Rightarrow> True | JObj _ \<Rightarrow> True | _ \<Rightarrow> False)"

definition typeof_number :: "jsval \<Rightarrow> bool" where
  "typeof_number v = (case v of JNum _ \<Rightarrow> True | _ \<Rightarrow> False)"

definition isValidPersistedData :: "jsval \<Rightarrow> bool" where
  "isValidPersistedData d =
     (if \<not> truthy d \<or> \<not> typeof_object d then False
      else own_lookup d ''data'' \<noteq> None \<and>
           own_lookup d ''timestamp'' \<noteq> None \<and> typeof_number (get_prop d ''timestamp'') \<and>
           own_lookup d ''version'' \<noteq> None \<and> typeof_number (get_prop d ''version''))"

text \<open>
  \<open>Date.now() > data.expiresAt\<close> compares numbers: a field that is not a number is
  converted by the host's ToNumber first. \<open>null\<close> and the booleans convert to 0 and 1.
  The conversion of a string, an array or an object (ToPrimitive, then the grammar of
  numeric strings) is not part of this repository and is a parameter: it returns NaN,
  an infinity or a finite number. The numbers of this model are the integers, as in
  \<open>JNum\<close>; a finite result \<open>x\<close> is given by its floor, since for the integer
  \<open>Date.now()\<close> the comparison \<open>t > x\<close> holds exactly when \<open>t > floor x\<close>. A
  comparison with NaN is false.
\<close>

datatype jsnumber = NaN | PosInfinity | NegInfinity | Finite int

definition greater_than :: "int \<Rightarrow> jsnumber \<Rightarrow> bool" where
  "greater_than t n =
     (case n of NaN \<Rightarrow> False | PosInfinity \<Rightarrow> False | NegInfinity \<Rightarrow> True
      | Finite x \<Rightarrow> t > x)"

definition isExpired :: "(jsval \<Rightarrow> jsnumber) \<Rightarrow> int \<Rightarrow> jsval \<Rightarrow> bool" where
  "isExpired toNumber tnow d =
     (case get_prop d ''expiresAt'' of
        JUndefined \<Rightarrow> False
      | JNum e \<Rightarrow> tnow > e
      | JNull \<Rightarrow> tnow > 0
      | JBool b \<Rightarrow> tnow > (if b then 1 else 0)
      | v \<Rightarrow> greater_than tnow (toNumber v))"

definition needsMigration :: "int \<Rightarrow> int \<Rightarrow> bool" where
  "needsMigration storedVersion currentVersion = (storedVersion < currentVersion)"

text \<open>A caller-supplied function either returns or throws (\<open>Inl\<close>).\<close>

type_synonym MigrateFn = "jsval \<Rightarrow> int \<Rightarrow> thrown + jsval"

definition migrateData :: "jsval \<Rightarrow> int \<Rightarrow> int \<Rightarrow> MigrateFn option \<Rightarrow> jsval" where
  "migrateData d storedVersion currentVersion migrateFn =
     (if \<not> needsMigration storedVersion currentVersion then d
      else case migrateFn of
             None \<Rightarrow> d
           | Some f \<Rightarrow> (case f d storedVersion of Inr migrated \<Rightarrow> migrated | Inl _ \<Rightarrow> JNull))"

definition createErrorInfo ::
    "PersistError \<Rightarrow> string \<Rightarrow> string \<Rightarrow> thrown option \<Rightarrow> PersistErrorInfo" where
  "createErrorInfo ty k msg err =
     \<lparr>info_type = ty, info_key = k, info_message = msg, info_error = err\<rparr>"

text \<open>String.prototype.toLowerCase on the letters A to Z, and String.prototype.includes.\<close>

definition toLowerCase :: "string \<Rightarrow> string" where
  "toLowerCase s =
     map (\<lambda>c. if 65 \<le> (of_char c :: nat) \<and> (of_char c :: nat) \<le> 90
               then char_of ((of_char c :: nat) + 32) else c) s"

fun startsWith :: "string \<Rightarrow> string \<Rightarrow> bool" where
  "startsWith s [] = True"
| "startsWith [] (c # cs) = False"
| "startsWith (x # xs) (c # cs) = (x = c \<and> startsWith xs cs)"

fun includes_str :: "string \<Rightarrow> string \<Rightarrow> bool" where
  "includes_str [] needle = (needle = [])"
| "includes_str (x # xs) needle = (startsWith (x # xs) needle \<or> includes_str xs needle)"

definition detectErrorType :: "thrown \<Rightarrow> PersistError" where
  "detectErrorType e =
     (case e of
        Thrown _ \<Rightarrow> UNKNOWN
      | Error nm msg \<Rightarrow>
          let message = toLowerCase msg; name = toLowerCase nm
          in if name = ''quotaexceedederror'' \<or> includes_str message ''quota'' \<or>
                includes_str message ''storage full'' \<or> includes_str message ''exceeded the quota''
             then QUOTA_EXCEEDED
             else if name = ''syntaxerror'' \<or> includes_str message ''json'' \<or>
                     includes_str message ''parse'' \<or> includes_str message ''unexpected token''
             then PARSE_ERROR
             else UNKNOWN)"

definition validateData :: "jsval \<Rightarrow> (jsval \<Rightarrow> thrown + bool) option \<Rightarrow> bool" where
  "validateData d validateFn =
     (case validateFn of
        None \<Rightarrow> True
      | Some f \<Rightarrow> (case f d of Inr ok \<Rightarrow> ok | Inl _ \<Rightarrow> False))"

section \<open>The hook useFormPersist: load on mount and save\<close>

text \<open>Serialized text is a JavaScript string: a sequence of 16-bit code units.\<close>

type_synonym jsstring = "16 word list"

text \<open>
  What the hook closes over: the resolved options and its environment. The transformer
  is the pair returned by createTransformPipeline; its \<open>deserialize\<close> never throws and
  returns \<open>null\<close> on failure. \<open>ToNumber\<close> is the host's conversion that isExpired
  needs for an \<open>expiresAt\<close> that is not a number. The storage backend is a map from keys to text, as the
  in-memory adapter is, and a browser storage that does not throw; whether the backend
  rejects a write (quota) is the environment's choice, \<open>setItem_rejects\<close>. Callbacks
  supplied by the caller may throw.
\<close>

record FormPersistOptions =
  fullKey :: string
  initialState :: jsval
  enabled :: bool
  isSSR :: bool
  opt_version :: "int option"
  expiration :: "int option"
  exclude :: "string list"
  migrate :: "MigrateFn option"
  mergeFn :: "jsval \<Rightarrow> jsval \<Rightarrow> thrown + jsval"
  validate :: "(jsval \<Rightarrow> thrown + bool) option"
  beforePersist :: "(jsval \<Rightarrow> thrown + jsval) option"
  serialize :: "jsval \<Rightarrow> thrown + jsstring"
  deserialize :: "jsstring \<Rightarrow> jsval"
  ToNumber :: "jsval \<Rightarrow> jsnumber"
  blob_size :: "(jsstring \<Rightarrow> nat) option"
  setItem_rejects :: "string \<Rightarrow> jsstring \<Rightarrow> thrown option"
  onRestore :: "(jsval \<Rightarrow> thrown option) option"
  onError :: "(PersistErrorInfo \<Rightarrow> thrown option) option"
  onStorageFull :: "(PersistErrorInfo \<Rightarrow> thrown option) option"

text \<open>
  The state cells of the hook, the backend, and a log of the calls made to the
  caller's callbacks.
\<close>

record hook_state =
  state :: jsval
  isPersisted :: bool
  isRestored :: bool
  lastSaved :: "int option"
  isPaused :: bool
  size_bytes :: nat
  history :: "jsval list"
  historyIndex :: int
  isMounted :: bool
  backend :: "string \<rightharpoonup> jsstring"
  onRestore_calls :: "jsval list"
  onError_calls :: "PersistErrorInfo list"
  onStorageFull_calls :: "PersistErrorInfo list"

definition useFormPersist_init :: "FormPersistOptions \<Rightarrow> (string \<rightharpoonup> jsstring) \<Rightarrow> hook_state" where
  "useFormPersist_init opts store =
     \<lparr>state = initialState opts, isPersisted = False, isRestored = False, lastSaved = None,
      isPaused = False, size_bytes = 0, history = [initialState opts], historyIndex = 0,
      isMounted = False, backend = store,
      onRestore_calls = [], onError_calls = [], onStorageFull_calls = []\<rparr>"

text \<open>
  A step of the hook returns the new state and, if an exception left the step, that
  exception.
\<close>

type_synonym step_result = "thrown option \<times> hook_state"

definition call_onStorageFull :: "FormPersistOptions \<Rightarrow> PersistErrorInfo \<Rightarrow> hook_state \<Rightarrow> step_result" where
  "call_onStorageFull opts info h =
     (case onStorageFull opts of
        None \<Rightarrow> (None, h)
      | Some f \<Rightarrow> (f info, h\<lparr>onStorageFull_calls := onStorageFull_calls h @ [info]\<rparr>))"

definition call_onError :: "FormPersistOptions \<Rightarrow> PersistErrorInfo \<Rightarrow> hook_state \<Rightarrow> step_result" where
  "call_onError opts info h =
     (case onError opts of
        None \<Rightarrow> (None, h)
      | Some f \<Rightarrow> (f info, h\<lparr>onError_calls := onError_calls h @ [info]\<rparr>))"

definition handleError ::
    "FormPersistOptions \<Rightarrow> PersistError \<Rightarrow> string \<Rightarrow> thrown option \<Rightarrow> hook_state \<Rightarrow> step_result" where
  "handleError opts ty msg err h =
     (let errorInfo = createErrorInfo ty (fullKey opts) msg err;
          (raised, h1) =
             (if ty = QUOTA_EXCEEDED \<or> ty = STORAGE_FULL then call_onStorageFull opts errorInfo h
              else (None, h))
      in case raised of
           Some e \<Rightarrow> (Some e, h1)
         | None \<Rightarrow> call_onError opts errorInfo h1)"

text \<open>\<open>e instanceof Error ? e : new Error(String(e))\<close>, and its message.\<close>

definition as_Error :: "thrown \<Rightarrow> thrown" where
  "as_Error e = (case e of Error nm msg \<Rightarrow> Error nm msg | Thrown s \<Rightarrow> Error ''Error'' s)"

definition message_of :: "thrown \<Rightarrow> string" where
  "message_of e = (case e of Error nm msg \<Rightarrow> msg | Thrown s \<Rightarrow> s)"

subsection \<open>loadFromStorage\<close>

text \<open>The body of the try block; an exception raised in it is the first component.\<close>

definition loadFromStorage_try :: "FormPersistOptions \<Rightarrow> int \<Rightarrow> hook_state \<Rightarrow> step_result" where
  "loadFromStorage_try opts tnow h =
     (case backend h (fullKey opts) of
        None \<Rightarrow> (None, h)
      | Some raw \<Rightarrow>
          if raw = [] then (None, h)
          else
            let parsed = deserialize opts raw
            in if \<not> truthy parsed
               then handleError opts CORRUPTED_DATA ''Failed to parse stored data'' None h
               else if \<not> isValidPersistedData parsed
               then handleError opts CORRUPTED_DATA ''Invalid data structure'' None h
               else if isExpired (ToNumber opts) tnow parsed
               then (None, h\<lparr>backend := (backend h)(fullKey opts := None)\<rparr>)
               else
                 let storedVersion = (case get_prop parsed ''version'' of JNum n \<Rightarrow> n | _ \<Rightarrow> 0);
                     d = migrateData (get_prop parsed ''data'') storedVersion
                           (case opt_version opts of Some v \<Rightarrow> v | None \<Rightarrow> 1) (migrate opts)
                 in if d = JNull
                    then handleError opts MIGRATION_FAILED ''Failed to migrate data'' None h
                    else
                      case mergeFn opts d (initialState opts) of
                        Inl e \<Rightarrow> (Some e, h)
                      | Inr merged \<Rightarrow>
                          let h1 = h\<lparr>state := merged, isPersisted := True, isRestored := True,
                                      lastSaved := (case get_prop parsed ''timestamp'' of
                                                      JNum t \<Rightarrow> Some t | _ \<Rightarrow> None),
                                      history := [merged], historyIndex := 0\<rparr>
                          in case onRestore opts of
                               None \<Rightarrow> (None, h1)
                             | Some f \<Rightarrow>
                                 (f merged, h1\<lparr>onRestore_calls := onRestore_calls h1 @ [merged]\<rparr>))"

definition loadFromStorage :: "FormPersistOptions \<Rightarrow> int \<Rightarrow> hook_state \<Rightarrow> step_result" where
  "loadFromStorage opts tnow h =
     (case loadFromStorage_try opts tnow h of
        (None, h1) \<Rightarrow> (None, h1)
      | (Some e, h1) \<Rightarrow> handleError opts UNKNOWN (message_of e) (Some (as_Error e)) h1)"

text \<open>The effect that runs on mount.\<close>

definition load_on_mount :: "FormPersistOptions \<Rightarrow> int \<Rightarrow> hook_state \<Rightarrow> step_result" where
  "load_on_mount opts tnow h =
     (if isSSR opts \<or> \<not> enabled opts \<or> isMounted h then (None, h)
      else loadFromStorage opts tnow (h\<lparr>isMounted := True\<rparr>))"

subsection \<open>saveToStorage\<close>

text \<open>
  filterExcludedFields; Object.keys throws a TypeError on \<open>null\<close> and \<open>undefined\<close>.
\<close>

definition filterExcludedFields :: "jsval \<Rightarrow> string list \<Rightarrow> thrown + jsval" where
  "filterExcludedFields d excl =
     (if excl = [] then Inr d
      else if d = JNull \<or> d = JUndefined
      then Inl (Error ''TypeError'' ''Cannot convert undefined or null to object'')
      else Inr (JObj (spread (filter (\<lambda>kv. fst kv \<notin> set excl) (own_entries d)) [])))"

definition wrapWithMetadata :: "int \<Rightarrow> jsval \<Rightarrow> int \<Rightarrow> int option \<Rightarrow> jsval" where
  "wrapWithMetadata tnow d ver expir =
     JObj ([(''data'', d), (''timestamp'', JNum tnow), (''version'', JNum ver)] @
           (case expir of
              None \<Rightarrow> []
            | Some m \<Rightarrow> if m > 0 then [(''expiresAt'', JNum (tnow + m * 60 * 1000))] else []))"

definition getStringByteSize :: "(jsstring \<Rightarrow> nat) option \<Rightarrow> jsstring \<Rightarrow> nat" where
  "getStringByteSize blob str = (case blob of Some sz \<Rightarrow> sz str | None \<Rightarrow> length str * 2)"

text \<open>beforePersist, then the exclusion filter.\<close>

definition processedData :: "FormPersistOptions \<Rightarrow> jsval \<Rightarrow> thrown + jsval" where
  "processedData opts dataToSave =
     (case (case beforePersist opts of None \<Rightarrow> Inr dataToSave | Some f \<Rightarrow> f dataToSave) of
        Inl e \<Rightarrow> Inl e
      | Inr d \<Rightarrow> if exclude opts \<noteq> [] then filterExcludedFields d (exclude opts) else Inr d)"

text \<open>
  The body of the try block. \<open>None\<close> in the first component and an unchanged state is
  the silent return after a failed validation.
\<close>

definition saveToStorage_try :: "FormPersistOptions \<Rightarrow> int \<Rightarrow> jsval \<Rightarrow> hook_state \<Rightarrow> step_result" where
  "saveToStorage_try opts tnow dataToSave h =
     (case processedData opts dataToSave of
        Inl e \<Rightarrow> (Some e, h)
      | Inr d \<Rightarrow>
          if \<not> validateData d (validate opts) then (None, h)
          else
            let wrapped = wrapWithMetadata tnow d
                            (case opt_version opts of Some v \<Rightarrow> v | None \<Rightarrow> 1) (expiration opts)
            in case serialize opts wrapped of
                 Inl e \<Rightarrow> (Some e, h)
               | Inr serialized \<Rightarrow>
                   let dataSize = getStringByteSize (blob_size opts) serialized
                   in case setItem_rejects opts (fullKey opts) serialized of
                        Some e \<Rightarrow> (Some e, h)
                      | None \<Rightarrow>
                          (None, h\<lparr>backend := (backend h)(fullKey opts \<mapsto> serialized),
                                    isPersisted := True, lastSaved := Some tnow,
                                    size_bytes := dataSize\<rparr>))"

definition saveToStorage :: "FormPersistOptions \<Rightarrow> int \<Rightarrow> jsval \<Rightarrow> hook_state \<Rightarrow> step_result" where
  "saveToStorage opts tnow dataToSave h =
     (if \<not> enabled opts \<or> isPaused h \<or> isSSR opts then (None, h)
      else case saveToStorage_try opts tnow dataToSave h of
             (None, h1) \<Rightarrow> (None, h1)
           | (Some e, h1) \<Rightarrow>
               handleError opts (detectErrorType (as_Error e)) (message_of e)
                 (Some (as_Error e)) h1)"


subsection \<open>A configuration for the examples\<close>

text \<open>
  Three stored texts and what the transformer reads from them: an envelope that
  expired at 2000, an envelope of schema version 1 without expiry, and anything else,
  which does not parse. The caller supplies onError and onStorageFull, a migrate
  function and a validate hook that both throw, and asks for schema version 2. The
  envelopes carry a number in \<open>expiresAt\<close> or no such field, so the host's ToNumber is
  not consulted; the one given here converts the empty string and the empty array to 0
  and stands for NaN elsewhere.
\<close>

definition example_deserialize :: "jsstring \<Rightarrow> jsval" where
  "example_deserialize raw =
     (if raw = [0x65] then
        JObj [(''data'', JObj [(''name'', JStr ''John'')]), (''timestamp'', JNum 1000),
              (''version'', JNum 2), (''expiresAt'', JNum 2000)]
      else if raw = [0x6F] then
        JObj [(''data'', JObj [(''name'', JStr ''John'')]), (''timestamp'', JNum 1000),
              (''version'', JNum 1)]
      else JNull)"

definition example_ToNumber :: "jsval \<Rightarrow> jsnumber" where
  "example_ToNumber v =
     (case v of
        JStr s \<Rightarrow> if s = [] then Finite 0 else NaN
      | JArr xs \<Rightarrow> if xs = [] then Finite 0 else NaN
      | _ \<Rightarrow> NaN)"

definition example_options :: FormPersistOptions where
  "example_options =
     \<lparr>fullKey = ''rfp:form'',
      initialState = JObj [(''name'', JStr []), (''email'', JStr [])],
      enabled = True, isSSR = False, opt_version = Some 2, expiration = None, exclude = [],
      migrate = Some (\<lambda>oldData oldVersion. Inl (Error ''Error'' ''cannot migrate'')),
      mergeFn = (\<lambda>stored initial. Inr (shallowMerge stored initial)),
      validate = Some (\<lambda>d. Inl (Error ''TypeError'' ''validator crashed'')),
      beforePersist = None,
      serialize = (\<lambda>wrapped. Inr [0x7B, 0x7D]),
      deserialize = example_deserialize,
      ToNumber = example_ToNumber,
      blob_size = None,
      setItem_rejects = (\<lambda>k v. None),
      onRestore = None,
      onError = Some (\<lambda>info. None),
      onStorageFull = Some (\<lambda>info. None)\<rparr>"

section \<open>Sync manager (sync/syncManager.ts)\<close>

datatype SyncStrategy = LatestWins | Merge | AskUser

datatype sync_source = Storage | Broadcast

datatype message_type = Update | Clear | Request

record SyncMessage =
  msg_type :: message_type
  msg_key :: string
  msg_data :: jsval
  msg_timestamp :: int
  msg_tabId :: string

text \<open>A storage event: its key and its new value, either of which may be \<open>null\<close>.\<close>

record StorageEvent =
  ev_key :: "string option"
  ev_newValue :: "jsstring option"

text \<open>
  The fields of a SyncManager. The callback registered with \<open>onSync(cb)\<close> and the
  \<open>onSync\<close> hook, \<open>strategy\<close> and \<open>conflictResolver\<close> of the options are functions of
  the caller; the model keeps whether each is there (for the registered callback, which
  one) and logs every call made to the two callbacks with its payload and source.
  An absent \<open>data\<close> field of a message is \<open>undefined\<close>.
\<close>

record 'c SyncManager =
  sm_key :: string
  tabId :: string
  isDestroyed :: bool
  has_channel :: bool
  sync_callback :: "'c option"
  opt_strategy :: "SyncStrategy option"
  opt_conflictResolver :: bool
  opt_onSync :: bool
  callback_calls :: "('c \<times> jsval \<times> sync_source) list"
  onSync_calls :: "(jsval \<times> sync_source) list"

text \<open>\<open>this.callback?.(data, source)\<close> and \<open>this.options.onSync?.(data, source)\<close>\<close>

definition call_callback :: "jsval \<Rightarrow> sync_source \<Rightarrow> 'c SyncManager \<Rightarrow> 'c SyncManager" where
  "call_callback d src m =
     (case sync_callback m of
        None \<Rightarrow> m
      | Some cb \<Rightarrow> m\<lparr>callback_calls := callback_calls m @ [(cb, d, src)]\<rparr>)"

definition call_options_onSync :: "jsval \<Rightarrow> sync_source \<Rightarrow> 'c SyncManager \<Rightarrow> 'c SyncManager" where
  "call_options_onSync d src m =
     (if opt_onSync m then m\<lparr>onSync_calls := onSync_calls m @ [(d, src)]\<rparr> else m)"

definition handleIncomingData :: "jsval \<Rightarrow> sync_source \<Rightarrow> 'c SyncManager \<Rightarrow> 'c SyncManager" where
  "handleIncomingData d src m =
     (let strategy = (case opt_strategy m of Some s \<Rightarrow> s | None \<Rightarrow> LatestWins)
      in if strategy = LatestWins then call_options_onSync d src (call_callback d src m)
         else if opt_conflictResolver m then call_options_onSync d src (call_callback d src m)
         else call_options_onSync d src (call_callback d src m))"

definition handleBroadcastMessage :: "SyncMessage \<Rightarrow> 'c SyncManager \<Rightarrow> 'c SyncManager" where
  "handleBroadcastMessage message m =
     (if isDestroyed m then m
      else if msg_tabId message = tabId m then m
      else if msg_key message \<noteq> sm_key m then m
      else if msg_type message = Update \<and> msg_data message \<noteq> JUndefined
      then handleIncomingData (msg_data message) Broadcast m
      else if msg_type message = Clear then call_options_onSync JUndefined Broadcast m
      else m)"

text \<open>
  JSON.parse is the host's; \<open>None\<close> is its SyntaxError, which the handler swallows.
\<close>

definition handleStorageEvent ::
    "(jsstring \<Rightarrow> jsval option) \<Rightarrow> StorageEvent \<Rightarrow> 'c SyncManager \<Rightarrow> 'c SyncManager" where
  "handleStorageEvent json_parse event m =
     (if isDestroyed m then m
      else if ev_key event \<noteq> Some (sm_key m) then m
      else case ev_newValue event of
             None \<Rightarrow> call_options_onSync JUndefined Storage m
           | Some newValue \<Rightarrow>
               (case json_parse newValue of
                  None \<Rightarrow> m
                | Some parsed \<Rightarrow>
                    if truthy parsed \<and> truthy (get_prop parsed ''data'')
                    then handleIncomingData (get_prop parsed ''data'') Storage m
                    else m))"

definition onSync_register :: "'c \<Rightarrow> 'c SyncManager \<Rightarrow> 'c SyncManager" where
  "onSync_register cb m = m\<lparr>sync_callback := Some cb\<rparr>"

definition destroy :: "'c SyncManager \<Rightarrow> 'c SyncManager" where
  "destroy m = m\<lparr>isDestroyed := True, has_channel := False, sync_callback := None\<rparr>"

text \<open>
  The constructor, on the client side; \<open>tab\<close> is what generateTabId returned and
  \<open>channel_ok\<close> whether a BroadcastChannel could be opened.
\<close>

definition new_SyncManager ::
    "string \<Rightarrow> string \<Rightarrow> bool \<Rightarrow> SyncStrategy option \<Rightarrow> bool \<Rightarrow> bool \<Rightarrow> 'c SyncManager" where
  "new_SyncManager k tab channel_ok strategy resolver hook =
     \<lparr>sm_key = k, tabId = tab, isDestroyed = False, has_channel = channel_ok,
      sync_callback = None, opt_strategy = strategy, opt_conflictResolver = resolver,
      opt_onSync = hook, callback_calls = [], onSync_calls = []\<rparr>"

section \<open>Transform pipeline (middleware/transform.ts)\<close>

definition DEFAULT_COMPRESSION_THRESHOLD :: nat where
  "DEFAULT_COMPRESSION_THRESHOLD = 1024"

subsection \<open>simpleCompress and simpleDecompress\<close>

text \<open>
  What the loop of simpleCompress appends when a run ends: the three code units
  \<open>\x00\<close>, the count and the character for a run of four or more, the run itself
  otherwise.
\<close>

definition emit_run :: "16 word \<Rightarrow> nat \<Rightarrow> jsstring" where
  "emit_run prevChar count =
     (if count \<ge> 4 then [0, of_nat count, prevChar] else replicate count prevChar)"

text \<open>
  The for loop, on the characters from index \<open>i\<close> on. Its last round, at
  \<open>i = data.length\<close>, reads \<open>undefined\<close>, which differs from every character and so
  ends the last run.
\<close>

fun compress_loop :: "jsstring \<Rightarrow> 16 word \<Rightarrow> nat \<Rightarrow> jsstring \<Rightarrow> jsstring" where
  "compress_loop [] prevChar count result = result @ emit_run prevChar count"
| "compress_loop (char # rest) prevChar count result =
     (if char = prevChar \<and> count < 255 then compress_loop rest prevChar (count + 1) result
      else compress_loop rest char 1 (result @ emit_run prevChar count))"

definition simpleCompress :: "jsstring \<Rightarrow> jsstring" where
  "simpleCompress d =
     (if length d < DEFAULT_COMPRESSION_THRESHOLD then d
      else case d of
             [] \<Rightarrow> d
           | first # rest \<Rightarrow>
               let result = compress_loop rest first 1 []
               in if length result < length d then 1 # result else d)"

text \<open>
  The while loop of simpleDecompress, on the characters from index \<open>i\<close> on. After a
  \<open>\x00\<close> it reads the count and the character; when the character is missing,
  \<open>char.repeat\<close> throws a TypeError.
\<close>

fun decompress_loop :: "jsstring \<Rightarrow> jsstring \<Rightarrow> thrown + jsstring" where
  "decompress_loop [] result = Inr result"
| "decompress_loop (c # rest) result =
     (if c = 0 then
        (case rest of
           count # char # rest' \<Rightarrow> decompress_loop rest' (result @ replicate (unat count) char)
         | _ \<Rightarrow> Inl (Error ''TypeError'' ''Cannot read properties of undefined''))
      else decompress_loop rest (result @ [c]))"

definition simpleDecompress :: "jsstring \<Rightarrow> thrown + jsstring" where
  "simpleDecompress d =
     (case d of
        [] \<Rightarrow> Inr d
      | marker # rest \<Rightarrow> if marker \<noteq> 1 then Inr d else decompress_loop rest [])"

subsection \<open>Host functions of the obfuscation\<close>

text \<open>
  base64Encode and base64Decode are built from four functions of the host:
  encodeURIComponent and decodeURIComponent (ECMAScript) and btoa and atob (HTML).
  They are modelled here from their specifications, on the numeric values of the code
  units.
\<close>

subsubsection \<open>UTF-16 and UTF-8\<close>

definition is_high_surrogate :: "nat \<Rightarrow> bool" where
  "is_high_surrogate u = (0xD800 \<le> u \<and> u \<le> 0xDBFF)"

definition is_low_surrogate :: "nat \<Rightarrow> bool" where
  "is_low_surrogate u = (0xDC00 \<le> u \<and> u \<le> 0xDFFF)"

text \<open>The code points of a string; \<open>None\<close> when a surrogate stands alone.\<close>

fun utf16_code_points :: "nat list \<Rightarrow> nat list option" where
  "utf16_code_points [] = Some []"
| "utf16_code_points [u] =
     (if is_high_surrogate u \<or> is_low_surrogate u then None else Some [u])"
| "utf16_code_points (u # l # rest) =
     (if is_high_surrogate u then
        (if is_low_surrogate l
         then map_option ((#) (0x10000 + (u - 0xD800) * 0x400 + (l - 0xDC00)))
                (utf16_code_points rest)
         else None)
      else if is_low_surrogate u then None
      else map_option ((#) u) (utf16_code_points (l # rest)))"

definition utf16_units :: "nat \<Rightarrow> nat list" where
  "utf16_units cp =
     (if cp < 0x10000 then [cp]
      else [0xD800 + (cp - 0x10000) div 0x400, 0xDC00 + (cp - 0x10000) mod 0x400])"

definition utf8_octets :: "nat \<Rightarrow> nat list" where
  "utf8_octets cp =
     (if cp < 0x80 then [cp]
      else if cp < 0x800 then [0xC0 + cp div 64, 0x80 + cp mod 64]
      else if cp < 0x10000 then
        [0xE0 + cp div 4096, 0x80 + cp div 64 mod 64, 0x80 + cp mod 64]
      else
        [0xF0 + cp div 262144, 0x80 + cp div 4096 mod 64, 0x80 + cp div 64 mod 64,
         0x80 + cp mod 64])"

text \<open>
  The code point that a sequence of one to four octets encodes, when the sequence is
  the UTF-8 encoding of a code point (no surrogate, no overlong form, at most 10FFFF).
\<close>

fun utf8_value :: "nat list \<Rightarrow> nat" where
  "utf8_value [a] = a"
| "utf8_value [a, b] = (a - 0xC0) * 64 + (b - 0x80)"
| "utf8_value [a, b, c] = (a - 0xE0) * 4096 + (b - 0x80) * 64 + (c - 0x80)"
| "utf8_value [a, b, c, d] =
     (a - 0xF0) * 262144 + (b - 0x80) * 4096 + (c - 0x80) * 64 + (d - 0x80)"
| "utf8_value _ = 0x110000"

definition utf8_code_point :: "nat list \<Rightarrow> nat option" where
  "utf8_code_point octets =
     (let cp = utf8_value octets
      in if cp < 0x110000 \<and> \<not> is_high_surrogate cp \<and> \<not> is_low_surrogate cp \<and>
            utf8_octets cp = octets
         then Some cp else None)"

subsubsection \<open>encodeURIComponent and decodeURIComponent\<close>

definition uriUnreserved :: "nat \<Rightarrow> bool" where
  "uriUnreserved c =
     ((65 \<le> c \<and> c \<le> 90) \<or> (97 \<le> c \<and> c \<le> 122) \<or> (48 \<le> c \<and> c \<le> 57) \<or>
      c \<in> {45, 95, 46, 33, 126, 42, 39, 40, 41})"

definition upper_hex :: "nat \<Rightarrow> nat" where
  "upper_hex d = (if d < 10 then 48 + d else 55 + d)"

definition lower_hex :: "nat \<Rightarrow> nat" where
  "lower_hex d = (if d < 10 then 48 + d else 87 + d)"

definition hex_value :: "nat \<Rightarrow> nat option" where
  "hex_value c =
     (if 48 \<le> c \<and> c \<le> 57 then Some (c - 48)
      else if 65 \<le> c \<and> c \<le> 70 then Some (c - 55)
      else if 97 \<le> c \<and> c \<le> 102 then Some (c - 87)
      else None)"

definition percent_escape :: "nat \<Rightarrow> nat list" where
  "percent_escape octet = [37, upper_hex (octet div 16), upper_hex (octet mod 16)]"

definition uri_encode_code_point :: "nat \<Rightarrow> nat list" where
  "uri_encode_code_point cp =
     (if uriUnreserved cp then [cp] else concat (map percent_escape (utf8_octets cp)))"

definition uri_encode :: "nat list \<Rightarrow> nat list option" where
  "uri_encode units =
     map_option (\<lambda>cps. concat (map uri_encode_code_point cps)) (utf16_code_points units)"

text \<open>
  Decoding, first the escapes (\<open>Inl\<close> an octet written \<open>%XX\<close>, \<open>Inr\<close> any other code
  unit), then the octets as UTF-8. \<open>None\<close> is the URIError.
\<close>

fun percent_tokens :: "nat list \<Rightarrow> (nat + nat) list option" where
  "percent_tokens [] = Some []"
| "percent_tokens (c # rest) =
     (if c \<noteq> 37 then map_option ((#) (Inr c)) (percent_tokens rest)
      else
        (case rest of
           a # b # rest' \<Rightarrow>
             (case (hex_value a, hex_value b) of
                (Some x, Some y) \<Rightarrow> map_option ((#) (Inl (16 * x + y))) (percent_tokens rest')
              | _ \<Rightarrow> None)
         | _ \<Rightarrow> None))"

fun utf8_tokens :: "(nat + nat) list \<Rightarrow> nat list option" where
  "utf8_tokens [] = Some []"
| "utf8_tokens (Inr c # ts) = map_option ((#) c) (utf8_tokens ts)"
| "utf8_tokens (Inl b # ts) =
     (if b < 0x80 then map_option ((#) b) (utf8_tokens ts)
      else if b < 0xC0 then None
      else if b < 0xE0 then
        (case ts of
           Inl b1 # r \<Rightarrow>
             (case utf8_code_point [b, b1] of
                Some cp \<Rightarrow> map_option ((@) (utf16_units cp)) (utf8_tokens r)
              | None \<Rightarrow> None)
         | _ \<Rightarrow> None)
      else if b < 0xF0 then
        (case ts of
           Inl b1 # Inl b2 # r \<Rightarrow>
             (case utf8_code_point [b, b1, b2] of
                Some cp \<Rightarrow> map_option ((@) (utf16_units cp)) (utf8_tokens r)
              | None \<Rightarrow> None)
         | _ \<Rightarrow> None)
      else if b < 0xF8 then
        (case ts of
           Inl b1 # Inl b2 # Inl b3 # r \<Rightarrow>
             (case utf8_code_point [b, b1, b2, b3] of
                Some cp \<Rightarrow> map_option ((@) (utf16_units cp)) (utf8_tokens r)
              | None \<Rightarrow> None)
         | _ \<Rightarrow> None)
      else None)"

definition uri_decode :: "nat list \<Rightarrow> nat list option" where
  "uri_decode units =
     (case percent_tokens units of None \<Rightarrow> None | Some ts \<Rightarrow> utf8_tokens ts)"

subsubsection \<open>btoa and atob\<close>

definition base64_char :: "nat \<Rightarrow> nat" where
  "base64_char n =
     (if n < 26 then 65 + n else if n < 52 then 71 + n else if n < 62 then n - 4
      else if n = 62 then 43 else 47)"

definition base64_value :: "nat \<Rightarrow> nat option" where
  "base64_value c =
     (if 65 \<le> c \<and> c \<le> 90 then Some (c - 65)
      else if 97 \<le> c \<and> c \<le> 122 then Some (c - 71)
      else if 48 \<le> c \<and> c \<le> 57 then Some (c + 4)
      else if c = 43 then Some 62
      else if c = 47 then Some 63
      else None)"

fun base64_encode :: "nat list \<Rightarrow> nat list" where
  "base64_encode [] = []"
| "base64_encode [a] = [base64_char (a div 4), base64_char (a mod 4 * 16), 61, 61]"
| "base64_encode [a, b] =
     [base64_char (a div 4), base64_char (a mod 4 * 16 + b div 16),
      base64_char (b mod 16 * 4), 61]"
| "base64_encode (a # b # c # rest) =
     [base64_char (a div 4), base64_char (a mod 4 * 16 + b div 16),
      base64_char (b mod 16 * 4 + c div 64), base64_char (c mod 64)] @ base64_encode rest"

text \<open>
  The forgiving-base64 decoding of atob, after the removal of ASCII whitespace: padding
  is accepted at the end of a text whose length is a multiple of four, a text without
  padding is accepted unless one character is left over, and the unused low bits of the
  last character are dropped.
\<close>

definition base64_two :: "nat \<Rightarrow> nat \<Rightarrow> nat list option" where
  "base64_two w x =
     (case (base64_value w, base64_value x) of
        (Some p, Some q) \<Rightarrow> Some [p * 4 + q div 16]
      | _ \<Rightarrow> None)"

definition base64_three :: "nat \<Rightarrow> nat \<Rightarrow> nat \<Rightarrow> nat list option" where
  "base64_three w x y =
     (case (base64_value w, base64_value x, base64_value y) of
        (Some p, Some q, Some r) \<Rightarrow> Some [p * 4 + q div 16, q mod 16 * 16 + r div 4]
      | _ \<Rightarrow> None)"

definition base64_four :: "nat \<Rightarrow> nat \<Rightarrow> nat \<Rightarrow> nat \<Rightarrow> nat list option" where
  "base64_four w x y z =
     (case (base64_value w, base64_value x, base64_value y, base64_value z) of
        (Some p, Some q, Some r, Some t) \<Rightarrow>
          Some [p * 4 + q div 16, q mod 16 * 16 + r div 4, r mod 4 * 64 + t]
      | _ \<Rightarrow> None)"

fun base64_decode :: "nat list \<Rightarrow> nat list option" where
  "base64_decode [] = Some []"
| "base64_decode [w] = None"
| "base64_decode [w, x] = base64_two w x"
| "base64_decode [w, x, y] = base64_three w x y"
| "base64_decode [w, x, y, z] =
     (if y = 61 \<and> z = 61 then base64_two w x
      else if z = 61 then base64_three w x y
      else base64_four w x y z)"
| "base64_decode (w # x # y # z # rest) =
     (case base64_four w x y z of
        None \<Rightarrow> None
      | Some octets \<Rightarrow> map_option ((@) octets) (base64_decode rest))"

definition ascii_whitespace :: "nat \<Rightarrow> bool" where
  "ascii_whitespace c = (c \<in> {9, 10, 12, 13, 32})"


definition valid_scalar :: "nat \<Rightarrow> bool" where
  "valid_scalar cp = (cp < 0x110000 \<and> \<not> is_high_surrogate cp \<and> \<not> is_low_surrogate cp)"

subsubsection \<open>The host functions on strings\<close>

definition URIError :: thrown where
  "URIError = Error ''URIError'' ''URI malformed''"

definition InvalidCharacterError :: thrown where
  "InvalidCharacterError = Error ''InvalidCharacterError'' ''Invalid character''"

definition encodeURIComponent :: "jsstring \<Rightarrow> thrown + jsstring" where
  "encodeURIComponent s =
     (case uri_encode (map unat s) of
        None \<Rightarrow> Inl URIError
      | Some t \<Rightarrow> Inr (map of_nat t))"

definition decodeURIComponent :: "jsstring \<Rightarrow> thrown + jsstring" where
  "decodeURIComponent s =
     (case uri_decode (map unat s) of
        None \<Rightarrow> Inl URIError
      | Some t \<Rightarrow> Inr (map of_nat t))"

text \<open>btoa throws when a code unit is above 255.\<close>

definition btoa :: "jsstring \<Rightarrow> thrown + jsstring" where
  "btoa s =
     (if list_ex (\<lambda>c. unat c > 255) s then Inl InvalidCharacterError
      else Inr (map of_nat (base64_encode (map unat s))))"

definition atob :: "jsstring \<Rightarrow> thrown + jsstring" where
  "atob s =
     (case base64_decode (filter (\<lambda>c. \<not> ascii_whitespace c) (map unat s)) of
        None \<Rightarrow> Inl InvalidCharacterError
      | Some octets \<Rightarrow> Inr (map of_nat octets))"

subsection \<open>base64Encode and base64Decode\<close>

text \<open>
  The branch taken where btoa and atob exist (browsers, and Node from version 16).
  \<open>replace_escapes\<close> is \<open>.replace(/%([0-9A-F]{2})/g, ...)\<close>: every \<open>%\<close> followed by
  two upper-case hexadecimal digits becomes the character with that code.
\<close>

definition is_upper_hex :: "16 word \<Rightarrow> bool" where
  "is_upper_hex c = ((48 \<le> unat c \<and> unat c \<le> 57) \<or> (65 \<le> unat c \<and> unat c \<le> 70))"

definition upper_hex_value :: "16 word \<Rightarrow> nat" where
  "upper_hex_value c = (if unat c \<le> 57 then unat c - 48 else unat c - 55)"

fun replace_escapes :: "jsstring \<Rightarrow> jsstring" where
  "replace_escapes (c # a # b # rest) =
     (if c = 0x25 \<and> is_upper_hex a \<and> is_upper_hex b
      then of_nat (16 * upper_hex_value a + upper_hex_value b) # replace_escapes rest
      else c # replace_escapes (a # b # rest))"
| "replace_escapes s = s"

definition base64Encode :: "jsstring \<Rightarrow> thrown + jsstring" where
  "base64Encode d =
     (case encodeURIComponent d of
        Inl e \<Rightarrow> Inl e
      | Inr escaped \<Rightarrow> btoa (replace_escapes escaped))"

text \<open>
  \<open>'%' + ('00' + c.charCodeAt(0).toString(16)).slice(-2)\<close>: the last two hexadecimal
  digits of the code, in lower case.
\<close>

definition percent_all :: "jsstring \<Rightarrow> jsstring" where
  "percent_all s =
     concat (map (\<lambda>c. [0x25, of_nat (lower_hex (unat c div 16 mod 16)),
                         of_nat (lower_hex (unat c mod 16))]) s)"

text \<open>Whatever is thrown inside, base64Decode returns its argument.\<close>

definition base64Decode :: "jsstring \<Rightarrow> jsstring" where
  "base64Decode d =
     (case atob d of
        Inl e \<Rightarrow> d
      | Inr binary \<Rightarrow>
          (case decodeURIComponent (percent_all binary) of
             Inl e \<Rightarrow> d
           | Inr decoded \<Rightarrow> decoded))"

text \<open>
  A string is well formed when every high surrogate is followed by a low surrogate and
  every low surrogate follows a high one. \<open>surrogate_pairing b s\<close> reads \<open>s\<close> with
  \<open>b\<close> telling whether a high surrogate is waiting for its partner, and returns that
  flag at the end, or \<open>None\<close> at the first surrogate out of place.
\<close>

fun surrogate_pairing :: "bool \<Rightarrow> jsstring \<Rightarrow> bool option" where
  "surrogate_pairing b [] = Some b"
| "surrogate_pairing b (c # cs) =
     (if b then (if is_low_surrogate (unat c) then surrogate_pairing False cs else None)
      else if is_high_surrogate (unat c) then surrogate_pairing True cs
      else if is_low_surrogate (unat c) then None
      else surrogate_pairing False cs)"

definition well_formed :: "jsstring \<Rightarrow> bool" where
  "well_formed s = (surrogate_pairing False s = Some False)"

subsection \<open>createTransformPipeline\<close>

text \<open>
  JSON.stringify and JSON.parse belong to the host and are parameters of the pipeline.
  \<open>JSON_stringify\<close> gives \<open>Inl\<close> when it throws or returns no string, \<open>JSON_parse\<close>
  gives \<open>None\<close> for its SyntaxError.
\<close>

record json_host =
  JSON_stringify :: "jsval \<Rightarrow> thrown + jsstring"
  JSON_parse :: "jsstring \<Rightarrow> jsval option"

definition defaultSerialize :: "json_host \<Rightarrow> jsval \<Rightarrow> thrown + jsstring" where
  "defaultSerialize J d = JSON_stringify J d"

definition defaultDeserialize :: "json_host \<Rightarrow> jsstring \<Rightarrow> jsval" where
  "defaultDeserialize J d = (case JSON_parse J d of Some v \<Rightarrow> v | None \<Rightarrow> JNull)"

record TransformOptions =
  custom_serialize :: "(jsval \<Rightarrow> thrown + jsstring) option"
  custom_deserialize :: "(jsstring \<Rightarrow> thrown + jsval) option"

text \<open>
  The \<open>compress\<close> argument: absent or \<open>false\<close>, \<open>true\<close>, or an options object with an
  optional threshold.
\<close>

datatype compress_arg = CompressOff | CompressOn | CompressOptions "int option"

definition shouldCompress :: "compress_arg \<Rightarrow> bool" where
  "shouldCompress c = (c \<noteq> CompressOff)"

definition compressionThreshold :: "compress_arg \<Rightarrow> int" where
  "compressionThreshold c =
     (case c of
        CompressOptions (Some threshold) \<Rightarrow> threshold
      | _ \<Rightarrow> int DEFAULT_COMPRESSION_THRESHOLD)"

definition pipeline_serialize ::
    "json_host \<Rightarrow> TransformOptions \<Rightarrow> compress_arg \<Rightarrow> bool \<Rightarrow> jsval \<Rightarrow> thrown + jsstring" where
  "pipeline_serialize J options c encrypt d =
     (case (case custom_serialize options of
              Some f \<Rightarrow> f d
            | None \<Rightarrow> defaultSerialize J d) of
        Inl e \<Rightarrow> Inl e
      | Inr result \<Rightarrow>
          let result = (if shouldCompress c \<and> int (length result) \<ge> compressionThreshold c
                        then simpleCompress result else result)
          in if encrypt then base64Encode result else Inr result)"

text \<open>The try block of deserialize turns every exception into \<open>null\<close>.\<close>

definition pipeline_deserialize ::
    "json_host \<Rightarrow> TransformOptions \<Rightarrow> compress_arg \<Rightarrow> bool \<Rightarrow> jsstring \<Rightarrow> jsval" where
  "pipeline_deserialize J options c encrypt d =
     (let result = (if encrypt then base64Decode d else d)
      in case (if shouldCompress c then simpleDecompress result else Inr result) of
           Inl e \<Rightarrow> JNull
         | Inr result \<Rightarrow>
             (case custom_deserialize options of
                Some f \<Rightarrow> (case f result of Inl e \<Rightarrow> JNull | Inr v \<Rightarrow> v)
              | None \<Rightarrow> defaultDeserialize J result))"

text \<open>
  What ECMAScript says of the text JSON.stringify returns (without indentation): it
  escapes the control characters below U+0020 and every lone surrogate, so the text
  holds no code unit below 32 and is well formed.
\<close>

definition json_text :: "jsstring \<Rightarrow> bool" where
  "json_text s = (list_all (\<lambda>c. 32 \<le> unat c) s \<and> well_formed s)"

text \<open>
  An example host, defined at one value only: the object \<open>{"a":1}\<close> and its JSON text.
\<close>

definition example_value :: jsval where
  "example_value = JObj [(''a'', JNum 1)]"

definition example_text :: jsstring where
  "example_text = [0x7B, 0x22, 0x61, 0x22, 0x3A, 0x31, 0x7D]"

definition example_json :: json_host where
  "example_json =
     \<lparr>JSON_stringify = (\<lambda>v. if v = example_value then Inr example_text
                              else Inl (Error ''TypeError'' ''not supported'')),
      JSON_parse = (\<lambda>t. if t = example_text then Some example_value else None)\<rparr>"

section \<open>Theorems\<close>

subsection \<open>History manager\<close>




















text \<open>
  Two setState calls made in one render both slice at the index that render closed
  over, while the index cell is incremented twice: from the initial cells the list
  becomes \<open>[0, 2]\<close> and the index 2, which is outside the list.
\<close>

lemma hook_two_setState_in_one_render:
  "hook_run 50 (0::nat) [[SetState 1, SetState 2]] ([0], 0) = ([0, 2], 2)"
  by (simp add: hook_render_def hook_call_update_def hook_setHistory_def
        hook_setHistoryIndex_def slice0_def Let_def)



subsection \<open>Save scheduler\<close>

declare run_timers.simps [simp del] settle.simps [simp del]

lemma advance_idle:
  assumes "\<And>o' due. next_timer s = Some (o', due) \<Longrightarrow> now s + g < due"
  shows "advance g s = s\<lparr>now := now s + g\<rparr>"
proof (cases "next_timer s")
  case None
  then show ?thesis by (simp add: advance_def run_timers.simps [of _ s])
next
  case (Some p)
  obtain o' due where p: "p = (o', due)" by (cases p)
  with Some assms have "now s + g < due" by simp
  with Some p show ?thesis by (simp add: advance_def run_timers.simps [of _ s])
qed

lemma advance_debounce_armed:
  assumes "debounce_armed w a s" and "g < w"
  shows "advance g s = s\<lparr>now := now s + g\<rparr>"
proof (rule advance_idle)
  fix o' due
  assume "next_timer s = Some (o', due)"
  with assms show "now s + g < due"
    by (auto simp: debounce_armed_def next_timer_def)
qed

lemma debounced_armed:
  assumes "t_timeoutId (thr s) = None" and "0 \<le> w"
  shows "debounce_armed w a (debounced w a s)"
    and "invoked (debounced w a s) = invoked s"
    and "now (debounced w a s) = now s"
  using assms by (simp_all add: debounce_armed_def debounced_def setTimeout_def)

lemma settle_debounce_armed:
  assumes "debounce_armed w a s" and "0 \<le> w"
  shows "invoked (settle s) = invoked s @ [(now s + w, a)]"
proof -
  obtain i where t: "d_timeoutId (deb s) = Some (now s + w, i)"
    and l: "d_lastArgs (deb s) = Some a" and n: "t_timeoutId (thr s) = None"
    using assms by (auto simp: debounce_armed_def)
  have nt: "next_timer s = Some (DebounceTimer, now s + w)"
    using t n by (simp add: next_timer_def)
  let ?s1 = "fire DebounceTimer (now s + w) s"
  have fired: "invoked ?s1 = invoked s @ [(now s + w, a)]"
    and q: "next_timer ?s1 = None"
    using t l n assms(2)
    by (simp_all add: fire_def debounce_timer_def callback_def next_timer_def max_def)
  have "settle s = settle ?s1" using nt by (simp add: settle.simps [of s])
  also have "\<dots> = ?s1" using q by (simp add: settle.simps [of ?s1])
  finally show ?thesis using fired by simp
qed

lemma debounce_burst:
  assumes "debounce_armed w a s" and "0 \<le> w"
    and "\<forall>(g, b) \<in> set rest. 0 \<le> g \<and> g < w"
  shows "invoked (settle (burst (debounced w) rest s)) =
           invoked s @ [(now s + sum_list (map fst rest) + w, snd (last ((0, a) # rest)))]"
  using assms
proof (induction rest arbitrary: s a)
  case Nil
  then show ?case by (simp add: settle_debounce_armed)
next
  case (Cons c rest)
  obtain g b where c: "c = (g, b)" by (cases c)
  have g: "0 \<le> g" "g < w" using Cons.prems(3) c by auto
  have adv: "advance g s = s\<lparr>now := now s + g\<rparr>"
    using Cons.prems(1) g(2) by (rule advance_debounce_armed)
  let ?s' = "debounced w b (s\<lparr>now := now s + g\<rparr>)"
  have idle: "t_timeoutId (thr (s\<lparr>now := now s + g\<rparr>)) = None"
    using Cons.prems(1) by (simp add: debounce_armed_def)
  have armed: "debounce_armed w b ?s'"
    and inv: "invoked ?s' = invoked s" and nw: "now ?s' = now s + g"
    using debounced_armed [OF idle Cons.prems(2), of b] by simp_all
  have "invoked (settle (burst (debounced w) rest ?s')) =
          invoked ?s' @ [(now ?s' + sum_list (map fst rest) + w, snd (last ((0, b) # rest)))]"
    using Cons.IH [OF armed Cons.prems(2)] Cons.prems(3) by simp
  then show ?case
    using c adv inv nw by (simp add: add.assoc)
qed

text \<open>
  Claim C7: for a debounced function with wait \<open>w\<close>, a sequence of N \<ge> 1 calls,
  each made less than \<open>w\<close> milliseconds after the previous one and followed by
  quiescence, invokes the underlying callback exactly once, with the arguments of the
  last call (and does so \<open>w\<close> milliseconds after the last call). The sequence starts
  in any state with no timer pending; the first call may come at any time.
\<close>

theorem C7_debounce_once_last_args:
  assumes "quiescent s0" and "0 \<le> g0" and "\<forall>(g, a) \<in> set rest. 0 \<le> g \<and> g < w"
  shows "invoked (settle (burst (debounced w) ((g0, a0) # rest) s0)) =
           invoked s0 @ [(now s0 + g0 + sum_list (map fst rest) + max 0 w,
                          snd (last ((g0, a0) # rest)))]"
proof -
  have adv: "advance g0 s0 = s0\<lparr>now := now s0 + g0\<rparr>"
    using assms(1) by (intro advance_idle) (simp add: quiescent_def next_timer_def)
  let ?s1 = "debounced w a0 (s0\<lparr>now := now s0 + g0\<rparr>)"
  have idle: "t_timeoutId (thr (s0\<lparr>now := now s0 + g0\<rparr>)) = None"
    using assms(1) by (simp add: quiescent_def)
  have armed: "debounce_armed (max 0 w) a0 ?s1"
    using idle by (simp add: debounce_armed_def debounced_def setTimeout_def)
  have inv: "invoked ?s1 = invoked s0" and nw: "now ?s1 = now s0 + g0"
    by (simp_all add: debounced_def setTimeout_def)
  show ?thesis
  proof (cases rest)
    case Nil
    then show ?thesis
      using adv settle_debounce_armed [OF armed] inv nw by simp
  next
    case (Cons c cs)
    then have "0 < w" using assms(3) by (cases c) auto
    then have mw: "max 0 w = w" by simp
    have "invoked (settle (burst (debounced w) rest ?s1)) =
            invoked ?s1 @ [(now ?s1 + sum_list (map fst rest) + w, snd (last ((0, a0) # rest)))]"
      using debounce_burst [of w a0 ?s1 rest] armed assms(3) mw \<open>0 < w\<close> by simp
    then show ?thesis
      using adv inv nw mw Cons by (simp add: add.assoc)
  qed
qed


lemma settle_both_armed:
  assumes "both_armed w interval t1 a s"
  shows "map snd (invoked (settle s)) = map snd (invoked s) @ [a, a]"
proof -
  obtain d i t j where d: "d_timeoutId (deb s) = Some (d, i)"
    and t: "t_timeoutId (thr s) = Some (t, j)"
    and l: "d_lastArgs (deb s) = Some a" "t_lastArgs (thr s) = Some a"
    using assms by (auto simp: both_armed_def)
  show ?thesis
  proof (cases "timer_before (d, i) (t, j)")
    case True
    then have nt: "next_timer s = Some (DebounceTimer, d)"
      using d t by (simp add: next_timer_def)
    let ?s1 = "fire DebounceTimer d s"
    have nt1: "next_timer ?s1 = Some (ThrottleTimer, t)"
      using d t l by (simp add: fire_def debounce_timer_def callback_def next_timer_def)
    let ?s2 = "fire ThrottleTimer t ?s1"
    have nt2: "next_timer ?s2 = None"
      using d t l
      by (simp add: fire_def debounce_timer_def throttle_timer_def callback_def
            next_timer_def Let_def)
    have log: "map snd (invoked ?s2) = map snd (invoked s) @ [a, a]"
      using d t l
      by (simp add: fire_def debounce_timer_def throttle_timer_def callback_def Let_def)
    have "settle s = settle ?s1" using nt by (simp add: settle.simps [of s])
    also have "\<dots> = settle ?s2" using nt1 by (simp add: settle.simps [of ?s1])
    also have "\<dots> = ?s2" using nt2 by (simp add: settle.simps [of ?s2])
    finally show ?thesis using log by simp
  next
    case False
    then have nt: "next_timer s = Some (ThrottleTimer, t)"
      using d t by (simp add: next_timer_def)
    let ?s1 = "fire ThrottleTimer t s"
    have nt1: "next_timer ?s1 = Some (DebounceTimer, d)"
      using d t l
      by (simp add: fire_def throttle_timer_def callback_def next_timer_def Let_def)
    let ?s2 = "fire DebounceTimer d ?s1"
    have nt2: "next_timer ?s2 = None"
      using d t l
      by (simp add: fire_def debounce_timer_def throttle_timer_def callback_def
            next_timer_def Let_def)
    have log: "map snd (invoked ?s2) = map snd (invoked s) @ [a, a]"
      using d t l
      by (simp add: fire_def debounce_timer_def throttle_timer_def callback_def Let_def)
    have "settle s = settle ?s1" using nt by (simp add: settle.simps [of s])
    also have "\<dots> = settle ?s2" using nt1 by (simp add: settle.simps [of ?s1])
    also have "\<dots> = ?s2" using nt2 by (simp add: settle.simps [of ?s2])
    finally show ?thesis using log by simp
  qed
qed

lemma advance_both_armed:
  assumes "both_armed w interval t1 a s" and "g < w" and "now s + g < t1 + interval"
  shows "advance g s = s\<lparr>now := now s + g\<rparr>"
proof (rule advance_idle)
  fix o' due
  assume "next_timer s = Some (o', due)"
  with assms show "now s + g < due"
    by (auto simp: both_armed_def next_timer_def split: if_splits)
qed

lemma save_both_armed:
  assumes "map_option fst (t_timeoutId (thr s)) = Some (t1 + interval)"
    and "t_lastCall (thr s) = t1" and "0 \<le> w" and "interval \<noteq> 0"
    and "now s < t1 + interval"
  shows "both_armed w interval t1 b (save w (Some interval) b s)"
    and "invoked (save w (Some interval) b s) = invoked s"
    and "now (save w (Some interval) b s) = now s"
  using assms
  by (auto simp: both_armed_def save_def debounced_def throttled_def setTimeout_def Let_def)

lemma combined_burst:
  assumes "both_armed w interval t1 a s" and "0 \<le> w" and "interval \<noteq> 0"
    and "\<forall>(g, b) \<in> set rest. 0 \<le> g \<and> g < w"
    and "now s + sum_list (map fst rest) < t1 + interval"
  shows "map snd (invoked (settle (burst (save w (Some interval)) rest s))) =
           map snd (invoked s) @ [snd (last ((0, a) # rest)), snd (last ((0, a) # rest))]"
  using assms
proof (induction rest arbitrary: s a)
  case Nil
  then show ?case by (simp add: settle_both_armed)
next
  case (Cons c rest)
  obtain g b where c: "c = (g, b)" by (cases c)
  have g: "0 \<le> g" "g < w" using Cons.prems(4) c by auto
  have nonneg: "0 \<le> sum_list (map fst rest)"
    using Cons.prems(4) by (intro sum_list_nonneg) auto
  have inside: "now s + g < t1 + interval"
    using Cons.prems(5) c nonneg by simp
  have adv: "advance g s = s\<lparr>now := now s + g\<rparr>"
    using Cons.prems(1) g(2) inside by (rule advance_both_armed)
  let ?s0 = "s\<lparr>now := now s + g\<rparr>"
  have thr0: "map_option fst (t_timeoutId (thr ?s0)) = Some (t1 + interval)"
    "t_lastCall (thr ?s0) = t1"
    using Cons.prems(1) by (simp_all add: both_armed_def)
  let ?s' = "save w (Some interval) b ?s0"
  have armed: "both_armed w interval t1 b ?s'"
    and inv: "invoked ?s' = invoked s" and nw: "now ?s' = now s + g"
    using save_both_armed [OF thr0 Cons.prems(2,3), of b] inside by simp_all
  have "map snd (invoked (settle (burst (save w (Some interval)) rest ?s'))) =
          map snd (invoked ?s') @ [snd (last ((0, b) # rest)), snd (last ((0, b) # rest))]"
    using Cons.IH [OF armed Cons.prems(2,3)] Cons.prems(4,5) c nw by simp
  then show ?case
    using c adv inv by simp
qed


theorem C7_debounce_once_last_args_witness:
  "quiescent (createSaveController 1000 :: string sched) \<and> (0::int) \<le> 5 \<and>
   (0::int) \<le> 50 \<and> (50::int) < 100 \<and> (0::int) \<le> 99 \<and> (99::int) < 100 \<and>
   invoked (settle (burst (debounced 100) [(5, ''a''), (50, ''b''), (99, ''c'')]
                      (createSaveController 1000)))
     = [(1254, ''c'')]"
  using C7_debounce_once_last_args [of "createSaveController 1000" 5
          "[(50, ''b''), (99, ''c'')]" 100 "''a''"]
  by (simp add: quiescent_def createSaveController_def)

text \<open>
  Claim C2, as stated: under the combined controller a single burst of save calls
  followed by quiescence invokes the callback at most twice. It fails on the scenario
  of the repository's own test (debounce 100, throttle 500, three calls in a row): the
  throttle runs the first call at once, the debounce timer runs the last arguments
  after 100 ms, and the throttle's trailing timer runs them again at 500 ms.
\<close>

theorem C2_combined_burst_counterexample:
  "invoked (settle (burst (save 100 (Some 500))
                     [(0, ''first''), (0, ''second''), (0, ''third'')]
                     (createSaveController 1000000)))
     = [(1000000, ''first''), (1000100, ''third''), (1000500, ''third'')]"
  by code_simp

text \<open>
  Claim C2, amended: for the combined controller (debounce wait \<open>w\<close>, throttle interval
  \<open>interval > 0\<close>), a burst of calls that starts with no timer pending and at least
  \<open>interval\<close> after the throttle last ran, in which each call comes less than \<open>w\<close>
  after the previous one and all calls come less than \<open>interval\<close> after the first,
  followed by quiescence, invokes the callback at most three times: once at the
  throttle's leading edge with the first arguments, once from the debounce timer and
  once from the throttle's trailing timer, both with the last arguments. A burst of a
  single call invokes it exactly twice.
\<close>

theorem C2_combined_burst_three:
  assumes "quiescent s0" and "0 < interval" and "0 \<le> g0"
    and "interval \<le> now s0 + g0 - t_lastCall (thr s0)"
    and "\<forall>(g, a) \<in> set rest. 0 \<le> g \<and> g < w"
    and "sum_list (map fst rest) < interval"
  shows "map snd (invoked (settle (burst (save w (Some interval)) ((g0, a0) # rest) s0))) =
           map snd (invoked s0) @
             (if rest = [] then [a0, a0] else [a0, snd (last rest), snd (last rest)])
         \<and> length (invoked (settle (burst (save w (Some interval)) ((g0, a0) # rest) s0)))
             \<le> length (invoked s0) + 3"
proof -
  have main: "map snd (invoked (settle (burst (save w (Some interval)) ((g0, a0) # rest) s0)))
      = map snd (invoked s0) @
             (if rest = [] then [a0, a0] else [a0, snd (last rest), snd (last rest)])"
  proof -
  have adv: "advance g0 s0 = s0\<lparr>now := now s0 + g0\<rparr>"
    using assms(1) by (intro advance_idle) (simp add: quiescent_def next_timer_def)
  let ?t1 = "now s0 + g0"
  let ?s1 = "save w (Some interval) a0 (s0\<lparr>now := ?t1\<rparr>)"
  have s1: "debounce_armed (max 0 w) a0 ?s1" "invoked ?s1 = invoked s0 @ [(?t1, a0)]"
    "now ?s1 = ?t1" "t_lastCall (thr ?s1) = ?t1"
    using assms(1,2,4)
    by (simp_all add: quiescent_def debounce_armed_def save_def debounced_def throttled_def
          setTimeout_def callback_def Let_def)
  show ?thesis
  proof (cases rest)
    case Nil
    then show ?thesis
      using adv settle_debounce_armed [OF s1(1)] s1(2) by simp
  next
    case (Cons c cs)
    obtain g b where c: "c = (g, b)" by (cases c)
    have g: "0 \<le> g" "g < w" using assms(5) Cons c by auto
    then have w: "0 < w" "max 0 w = w" by simp_all
    have nonneg: "0 \<le> sum_list (map fst cs)"
      using assms(5) Cons by (intro sum_list_nonneg) auto
    have gI: "g < interval" using assms(6) Cons c nonneg by simp
    have adv1: "advance g ?s1 = ?s1\<lparr>now := now ?s1 + g\<rparr>"
      using s1(1) g(2) w(2) advance_debounce_armed [of w a0 ?s1 g] by simp
    let ?s2 = "save w (Some interval) b (?s1\<lparr>now := ?t1 + g\<rparr>)"
    have idle1: "t_timeoutId (thr ?s1) = None"
      using s1(1) by (simp add: debounce_armed_def)
    have s2: "both_armed w interval ?t1 b ?s2" "invoked ?s2 = invoked ?s1"
      "now ?s2 = ?t1 + g"
      using idle1 s1(4) gI g(1) w(1) assms(2)
      by (simp_all add: both_armed_def save_def debounced_def throttled_def setTimeout_def
            Let_def)
    have "map snd (invoked (settle (burst (save w (Some interval)) cs ?s2))) =
            map snd (invoked ?s2) @ [snd (last ((0, b) # cs)), snd (last ((0, b) # cs))]"
      using combined_burst [OF s2(1), of cs] w(1) assms(2,5,6) Cons c s2(3) by simp
    then show ?thesis
      using adv adv1 s1(2,3) s2(2) Cons c by simp
  qed
qed
  have "length (map snd (invoked (settle (burst (save w (Some interval)) ((g0, a0) # rest) s0))))
          \<le> length (invoked s0) + 3"
    unfolding main by simp
  then show ?thesis using main by simp
qed

theorem C2_combined_burst_three_witness:
  "quiescent (createSaveController 1000000 :: string sched) \<and> (0::int) < 500 \<and> (0::int) \<le> 0 \<and>
   500 \<le> now (createSaveController 1000000 :: string sched) + 0
            - t_lastCall (thr (createSaveController 1000000 :: string sched)) \<and>
   (0::int) \<le> 30 \<and> (30::int) < 100 \<and> (0::int) \<le> 40 \<and> (40::int) < 100 \<and>
   sum_list (map fst [(30::int, ''b''), (40, ''c'')]) < 500 \<and>
   map snd (invoked (settle (burst (save 100 (Some 500))
                               [(0, ''a''), (30, ''b''), (40, ''c'')]
                               (createSaveController 1000000))))
     = [''a'', ''c'', ''c'']"
  using C2_combined_burst_three [of "createSaveController 1000000" 500 0
          "[(30, ''b''), (40, ''c'')]" 100 "''a''"]
  by (simp add: quiescent_def createSaveController_def)

subsection \<open>Merge engine\<close>


lemma map_of_set_prop: "map_of (set_prop ps key v) = (map_of ps)(key \<mapsto> v)"
  by (induction ps key v rule: set_prop.induct) auto

lemma keys_set_prop: "set (map fst (set_prop ps key v)) = insert key (set (map fst ps))"
  by (induction ps key v rule: set_prop.induct) auto

lemma distinct_set_prop: "distinct (map fst ps) \<Longrightarrow> distinct (map fst (set_prop ps key v))"
proof (induction ps key v rule: set_prop.induct)
  case (1 key v)
  then show ?case by simp
next
  case (2 k x rest key v)
  then show ?case
    using keys_set_prop [of rest key v] by auto
qed

lemma map_of_spread:
  "distinct (map fst src) \<Longrightarrow>
   map_of (spread src result) key =
     (case map_of src key of Some v \<Rightarrow> Some v | None \<Rightarrow> map_of result key)"
proof (induction src arbitrary: result)
  case Nil
  then show ?case by simp
next
  case (Cons p src)
  obtain k x where p: "p = (k, x)" by (cases p)
  have "map_of src k = None"
    using Cons.prems p by (simp add: map_of_eq_None_iff)
  then show ?case
    using Cons p by (auto simp: map_of_set_prop split: option.splits)
qed

lemma distinct_spread:
  "distinct (map fst result) \<Longrightarrow> distinct (map fst (spread src result))"
  by (induction src arbitrary: result) (auto simp: distinct_set_prop)

lemma spread_empty_lookup:
  "distinct (map fst src) \<Longrightarrow> map_of (spread src []) key = map_of src key"
  by (simp add: map_of_spread split: option.splits)

text \<open>
  Claim C8: shallowMerge merges one level only. For a plain object \<open>initial\<close> (keys
  distinct, as in every object), every top-level key present in \<open>stored\<close> carries
  stored's value as it is, so a nested object of stored replaces the nested object of
  initial whole and the nested keys that only initial had are gone; every top-level
  key absent from stored carries initial's value.
\<close>

theorem C8_shallowMerge_one_level:
  assumes "isPlainObject initial" and "distinct_keys initial" and "distinct_keys stored"
  shows "own_lookup (shallowMerge stored initial) key =
           (case own_lookup stored key of
              Some v \<Rightarrow> Some v
            | None \<Rightarrow> own_lookup initial key)"
proof -
  have "own_lookup (shallowMerge stored initial) key =
          map_of (spread (own_entries stored) (spread (own_entries initial) [])) key"
    using assms(1) by (simp add: shallowMerge_def own_lookup_def own_entries_def)
  also have "\<dots> = (case map_of (own_entries stored) key of
                       Some v \<Rightarrow> Some v
                     | None \<Rightarrow> map_of (spread (own_entries initial) []) key)"
    using assms(3) unfolding distinct_keys_def by (rule map_of_spread)
  also have "map_of (spread (own_entries initial) []) key = map_of (own_entries initial) key"
    using assms(2) unfolding distinct_keys_def by (rule spread_empty_lookup)
  finally show ?thesis by (simp add: own_lookup_def split: option.splits)
qed

theorem C8_shallowMerge_one_level_witness:
  "isPlainObject (JObj [(''name'', JStr ''''), (''email'', JStr ''''),
                        (''address'', JObj [(''city'', JStr ''''), (''zip'', JStr '''')])])
   \<and> distinct_keys (JObj [(''name'', JStr ''''), (''email'', JStr ''''),
                        (''address'', JObj [(''city'', JStr ''''), (''zip'', JStr '''')])])
   \<and> distinct_keys (JObj [(''name'', JStr ''John''),
                          (''address'', JObj [(''city'', JStr ''NYC'')])])
   \<and> own_lookup
        (shallowMerge
           (JObj [(''name'', JStr ''John''), (''address'', JObj [(''city'', JStr ''NYC'')])])
           (JObj [(''name'', JStr ''''), (''email'', JStr ''''),
                  (''address'', JObj [(''city'', JStr ''''), (''zip'', JStr '''')])]))
        ''address''
       = Some (JObj [(''city'', JStr ''NYC'')])
   \<and> own_lookup
        (shallowMerge
           (JObj [(''name'', JStr ''John''), (''address'', JObj [(''city'', JStr ''NYC'')])])
           (JObj [(''name'', JStr ''''), (''email'', JStr ''''),
                  (''address'', JObj [(''city'', JStr ''''), (''zip'', JStr '''')])]))
        ''email''
       = Some (JStr '''')"
  using C8_shallowMerge_one_level
          [of "JObj [(''name'', JStr ''''), (''email'', JStr ''''),
                     (''address'', JObj [(''city'', JStr ''''), (''zip'', JStr '''')])]"
              "JObj [(''name'', JStr ''John''), (''address'', JObj [(''city'', JStr ''NYC'')])]"
              "''address''"]
        C8_shallowMerge_one_level
          [of "JObj [(''name'', JStr ''''), (''email'', JStr ''''),
                     (''address'', JObj [(''city'', JStr ''''), (''zip'', JStr '''')])]"
              "JObj [(''name'', JStr ''John''), (''address'', JObj [(''city'', JStr ''NYC'')])]"
              "''email''"]
  by (simp add: isPlainObject_def distinct_keys_def own_entries_def own_lookup_def)

lemma deepMerge_loop_dangerous:
  "key \<in> set dangerousKeys \<Longrightarrow>
   map_of (deepMerge_loop entries initial result) key = map_of result key"
proof (induction entries arbitrary: result)
  case Nil
  then show ?case by simp
next
  case (Cons e entries)
  obtain k sv where e: "e = (k, sv)" by (cases e)
  show ?case
  proof (cases "k \<in> set dangerousKeys")
    case True
    then show ?thesis using Cons e by simp
  next
    case False
    then have "k \<noteq> key" using Cons.prems by auto
    then show ?thesis
      using Cons e False by (simp add: Let_def map_of_set_prop)
  qed
qed

lemma deepMerge_loop_lookup:
  assumes "distinct (map fst entries)"
  shows "map_of (deepMerge_loop entries initial result) key =
           merge_entry (map_of entries key) initial key (map_of result key)"
  using assms
proof (induction entries arbitrary: result)
  case Nil
  then show ?case by (simp add: merge_entry_def)
next
  case (Cons e entries)
  obtain k sv where e: "e = (k, sv)" by (cases e)
  have d: "distinct (map fst entries)" and k: "map_of entries k = None"
    using Cons.prems e by (simp_all add: map_of_eq_None_iff)
  note IH = Cons.IH [OF d]
  show ?case
  proof (cases "k = key")
    case True
    have rest: "\<And>r. map_of (deepMerge_loop entries initial r) key = map_of r key"
      using IH k True by (simp add: merge_entry_def)
    show ?thesis
      using e True rest
      by (simp add: Let_def map_of_set_prop merge_entry_def del: deepMerge.simps)
  next
    case False
    let ?r = "if k \<in> set dangerousKeys then result
              else if isPlainObject sv \<and> isPlainObject (get_prop initial k)
              then set_prop result k (deepMerge sv (get_prop initial k))
              else if sv \<noteq> JUndefined then set_prop result k sv
              else result"
    have r: "deepMerge_loop (e # entries) initial result = deepMerge_loop entries initial ?r"
      using e by (simp add: Let_def del: deepMerge.simps)
    have same: "map_of ?r key = map_of result key"
      using False by (simp add: map_of_set_prop)
    have "map_of (e # entries) key = map_of entries key"
      using e False by simp
    then show ?thesis
      using r same IH [of ?r] by simp
  qed
qed

lemma deepMerge_lookup:
  assumes "isPlainObject stored" and "isPlainObject initial"
    and "distinct (map fst (own_entries stored))"
    and "distinct (map fst (own_entries initial))"
  shows "own_lookup (deepMerge stored initial) key =
           merge_entry (own_lookup stored key) initial key (own_lookup initial key)"
proof -
  obtain entries where st: "stored = JObj entries"
    using assms(1) by (cases stored) (simp_all add: isPlainObject_def)
  obtain ientries where ini: "initial = JObj ientries"
    using assms(2) by (cases initial) (simp_all add: isPlainObject_def)
  have d: "distinct (map fst entries)" "distinct (map fst ientries)"
    using assms(3,4) st ini by (simp_all add: own_entries_def)
  have look: "own_lookup stored key = map_of entries key"
    "own_lookup initial key = map_of ientries key"
    using st ini by (simp_all add: own_lookup_def own_entries_def)
  have "own_lookup (deepMerge stored initial) key =
          map_of (deepMerge_loop entries initial (spread ientries [])) key"
    using st ini by (simp add: own_lookup_def own_entries_def isPlainObject_def)
  also have "\<dots> = merge_entry (map_of entries key) initial key
                      (map_of (spread ientries []) key)"
    using d(1) by (rule deepMerge_loop_lookup)
  finally show ?thesis
    using look spread_empty_lookup [OF d(2)] by simp
qed

lemma wf_val_plain: "wf_val v \<Longrightarrow> isPlainObject v \<Longrightarrow> distinct (map fst (own_entries v))"
  by (cases v) (simp_all add: isPlainObject_def own_entries_def)

lemma wf_val_get_prop: "wf_val v \<Longrightarrow> isPlainObject v \<Longrightarrow> wf_val (get_prop v key)"
proof (cases v)
  case (JObj kvs)
  assume wf: "wf_val v"
  show ?thesis
  proof (cases "map_of kvs key")
    case None
    then show ?thesis using JObj by (simp add: get_prop_def own_lookup_def own_entries_def)
  next
    case (Some x)
    then have "(key, x) \<in> set kvs" by (rule map_of_SomeD)
    then have "wf_val x" using wf JObj by (auto simp: list_all_iff)
    then show ?thesis
      using JObj Some by (simp add: get_prop_def own_lookup_def own_entries_def)
  qed
qed (simp_all add: isPlainObject_def)

text \<open>
  Claim C4, as stated: whatever stored object comes in, with the keys \<open>__proto__\<close>,
  \<open>constructor\<close> or \<open>prototype\<close> at any nesting depth, deepMerge never copies one of
  them into its result. It fails where the recursion does not descend: a stored
  sub-object whose counterpart in initial is not a plain object (here \<open>null\<close>) is
  assigned whole, with the key \<open>__proto__\<close> inside it. Initial mentions none of the
  three keys, the result does.
\<close>

theorem C4_deepMerge_nested_key_counterexample:
  "wf_val (JObj [(''profile'', JObj [(''__proto__'', JObj [(''polluted'', JBool True)])])])
   \<and> \<not> has_dangerous_key (JObj [(''name'', JStr ''''), (''profile'', JNull)])
   \<and> deepMerge
        (JObj [(''profile'', JObj [(''__proto__'', JObj [(''polluted'', JBool True)])])])
        (JObj [(''name'', JStr ''''), (''profile'', JNull)])
       = JObj [(''name'', JStr ''''),
               (''profile'', JObj [(''__proto__'', JObj [(''polluted'', JBool True)])])]
   \<and> has_dangerous_key
        (deepMerge
           (JObj [(''profile'', JObj [(''__proto__'', JObj [(''polluted'', JBool True)])])])
           (JObj [(''name'', JStr ''''), (''profile'', JNull)]))"
  by (simp add: dangerousKeys_def isPlainObject_def own_entries_def own_lookup_def
        get_prop_def)

text \<open>
  Claim C4, amended: for well-formed stored and initial values, at every level that the
  recursion of deepMerge reaches (the top level, and below it every key that is not
  skipped and under which both stored and initial hold a plain object), the keys
  \<open>__proto__\<close>, \<open>constructor\<close> and \<open>prototype\<close> are never taken from stored: under
  such a key the result has exactly what initial has there, an entry or none.
\<close>

theorem C4_deepMerge_skips_dangerous_keys:
  assumes "wf_val stored" and "wf_val initial"
    and "merged_at stored initial path" and "key \<in> set dangerousKeys"
  shows "own_lookup (at_path (deepMerge stored initial) path) key =
           own_lookup (at_path initial path) key"
  using assms
proof (induction path arbitrary: stored initial)
  case Nil
  then have p: "isPlainObject stored" "isPlainObject initial" by simp_all
  show ?case
    using deepMerge_lookup [OF p wf_val_plain [OF Nil.prems(1) p(1)]
            wf_val_plain [OF Nil.prems(2) p(2)], of key] Nil.prems(4)
    by (simp add: merge_entry_def split: option.splits del: deepMerge.simps)
next
  case (Cons k path)
  then have p: "isPlainObject stored" "isPlainObject initial"
    and nd: "k \<notin> set dangerousKeys"
    and sub: "merged_at (get_prop stored k) (get_prop initial k) path"
    by simp_all
  have subplain: "isPlainObject (get_prop stored k)" "isPlainObject (get_prop initial k)"
    using sub by (cases path; simp)+
  then obtain sv where sv: "own_lookup stored k = Some sv" "get_prop stored k = sv"
    by (cases "own_lookup stored k") (auto simp: get_prop_def isPlainObject_def)
  have "own_lookup (deepMerge stored initial) k =
          Some (deepMerge (get_prop stored k) (get_prop initial k))"
    using deepMerge_lookup [OF p wf_val_plain [OF Cons.prems(1) p(1)]
            wf_val_plain [OF Cons.prems(2) p(2)], of k] sv nd subplain
    by (simp add: merge_entry_def del: deepMerge.simps)
  then have step: "get_prop (deepMerge stored initial) k =
          deepMerge (get_prop stored k) (get_prop initial k)"
    by (simp add: get_prop_def del: deepMerge.simps)
  have "own_lookup (at_path (deepMerge (get_prop stored k) (get_prop initial k)) path) key =
          own_lookup (at_path (get_prop initial k) path) key"
    using Cons.IH [OF wf_val_get_prop [OF Cons.prems(1) p(1)]
            wf_val_get_prop [OF Cons.prems(2) p(2)] sub Cons.prems(4)] .
  then show ?case
    using step by (simp del: deepMerge.simps)
qed

theorem C4_deepMerge_skips_dangerous_keys_witness:
  "wf_val (JObj [(''__proto__'', JObj [(''polluted'', JBool True)]), (''name'', JStr ''safe''),
                 (''address'', JObj [(''constructor'', JNum 1), (''city'', JStr ''NYC'')])])
   \<and> wf_val (JObj [(''name'', JStr ''''),
                   (''address'', JObj [(''city'', JStr ''''), (''zip'', JStr '''')])])
   \<and> merged_at
        (JObj [(''__proto__'', JObj [(''polluted'', JBool True)]), (''name'', JStr ''safe''),
               (''address'', JObj [(''constructor'', JNum 1), (''city'', JStr ''NYC'')])])
        (JObj [(''name'', JStr ''''),
               (''address'', JObj [(''city'', JStr ''''), (''zip'', JStr '''')])])
        [''address'']
   \<and> ''constructor'' \<in> set dangerousKeys
   \<and> own_lookup
        (at_path
          (deepMerge
            (JObj [(''__proto__'', JObj [(''polluted'', JBool True)]), (''name'', JStr ''safe''),
                   (''address'', JObj [(''constructor'', JNum 1), (''city'', JStr ''NYC'')])])
            (JObj [(''name'', JStr ''''),
                   (''address'', JObj [(''city'', JStr ''''), (''zip'', JStr '''')])]))
          [''address''])
        ''constructor''
       = None"
  using C4_deepMerge_skips_dangerous_keys
          [of "JObj [(''__proto__'', JObj [(''polluted'', JBool True)]), (''name'', JStr ''safe''),
                     (''address'', JObj [(''constructor'', JNum 1), (''city'', JStr ''NYC'')])]"
              "JObj [(''name'', JStr ''''),
                     (''address'', JObj [(''city'', JStr ''''), (''zip'', JStr '''')])]"
              "[''address'']" "''constructor''"]
  by (simp add: dangerousKeys_def isPlainObject_def own_entries_def own_lookup_def
        get_prop_def del: deepMerge.simps)

subsection \<open>Load on mount and save\<close>


lemma isValid_truthy: "isValidPersistedData d \<Longrightarrow> truthy d"
  by (auto simp: isValidPersistedData_def split: if_splits)

lemma isExpired_number:
  "get_prop d ''expiresAt'' = JNum e \<Longrightarrow> isExpired toNumber tnow d = (e < tnow)"
  by (simp add: isExpired_def)

text \<open>
  An \<open>expiresAt\<close> that is a string is compared through the host's conversion: the
  empty string converts to 0 and so counts as expired at any positive time.
\<close>

lemma isExpired_string:
  "get_prop d ''expiresAt'' = JStr s \<Longrightarrow>
     isExpired toNumber tnow d = greater_than tnow (toNumber (JStr s))"
  by (simp add: isExpired_def)

lemma isExpired_empty_string:
  assumes "get_prop d ''expiresAt'' = JStr []" and "toNumber (JStr []) = Finite 0"
    and "0 < tnow"
  shows "isExpired toNumber tnow d"
  using assms by (simp add: isExpired_string greater_than_def)

text \<open>
  Claim C5, amended: when the stored text under the hook's key reads as a valid
  envelope whose expiresAt is a number earlier than the current time, the load on
  mount removes the key from the backend, leaves the live state equal to the caller's
  initial state (nothing is restored), lets no exception leave the load, and does not
  call onError: expiry is not reported as an error.
\<close>

theorem C5_expired_load:
  assumes "\<not> isSSR opts" and "enabled opts"
    and "store (fullKey opts) = Some raw" and "raw \<noteq> []"
    and "deserialize opts raw = parsed" and "isValidPersistedData parsed"
    and "get_prop parsed ''expiresAt'' = JNum e" and "e < tnow"
  shows "load_on_mount opts tnow (useFormPersist_init opts store) =
           (None, (useFormPersist_init opts store)
                     \<lparr>isMounted := True, backend := store(fullKey opts := None)\<rparr>)
         \<and> backend (snd (load_on_mount opts tnow (useFormPersist_init opts store)))
               (fullKey opts) = None
         \<and> state (snd (load_on_mount opts tnow (useFormPersist_init opts store)))
               = initialState opts
         \<and> fst (load_on_mount opts tnow (useFormPersist_init opts store)) = None
         \<and> onError_calls (snd (load_on_mount opts tnow (useFormPersist_init opts store))) = []"
proof -
  let ?h = "(useFormPersist_init opts store)\<lparr>isMounted := True\<rparr>"
  have b: "backend ?h (fullKey opts) = Some raw"
    using assms(3) by (simp add: useFormPersist_init_def)
  have "loadFromStorage_try opts tnow ?h =
          (None, ?h\<lparr>backend := (backend ?h)(fullKey opts := None)\<rparr>)"
    using b assms(4,5,6) isValid_truthy [OF assms(6)] isExpired_number [OF assms(7), of "ToNumber opts" tnow]
      assms(8)
    by (simp add: loadFromStorage_try_def Let_def)
  then have "loadFromStorage opts tnow ?h =
          (None, ?h\<lparr>backend := (backend ?h)(fullKey opts := None)\<rparr>)"
    by (simp add: loadFromStorage_def)
  then have main: "load_on_mount opts tnow (useFormPersist_init opts store) =
           (None, (useFormPersist_init opts store)
                     \<lparr>isMounted := True, backend := store(fullKey opts := None)\<rparr>)"
    using assms(1,2) by (simp add: load_on_mount_def useFormPersist_init_def)
  show ?thesis
    unfolding main by (simp add: useFormPersist_init_def)
qed

text \<open>
  Claim C5, as stated: an envelope whose expiresAt lies in the past is removed on load,
  the live state stays the caller's initial state, nothing is thrown, and the failure
  is reported through onError. The last part fails: the expired branch removes the key
  and returns, and calls no error handler. Here onError is supplied, the stored
  envelope expired at 2000 and is loaded at 3000; afterwards the key is gone and
  onError has not been called.
\<close>

theorem C5_expired_counterexample:
  "onError example_options \<noteq> None
   \<and> isValidPersistedData (deserialize example_options [0x65])
   \<and> isExpired (ToNumber example_options) 3000 (deserialize example_options [0x65])
   \<and> load_on_mount example_options 3000
        (useFormPersist_init example_options [''rfp:form'' \<mapsto> [0x65]])
       = (None, (useFormPersist_init example_options Map.empty)\<lparr>isMounted := True\<rparr>)
   \<and> onError_calls (snd (load_on_mount example_options 3000
        (useFormPersist_init example_options [''rfp:form'' \<mapsto> [0x65]]))) = []"
  by (simp add: example_options_def example_deserialize_def load_on_mount_def
        loadFromStorage_def loadFromStorage_try_def useFormPersist_init_def
        isValidPersistedData_def isExpired_def truthy_def typeof_object_def typeof_number_def
        get_prop_def own_lookup_def own_entries_def Let_def)







lemma validateData_throws: "v d = Inl e \<Longrightarrow> validateData d (Some v) = False"
  by (simp add: validateData_def)

text \<open>
  Claim C10: when the validate hook throws on the data to persist (the data after
  beforePersist and the exclusion filter), validateData returns false and saveToStorage
  does what it does for a hook that returns false: it returns without an exception and
  leaves everything as it was. Nothing is written to the backend, isPersisted,
  lastSaved and size keep their values, and neither onError nor onStorageFull is
  called.
\<close>

theorem C10_validate_throws:
  assumes "validate opts = Some v" and "processedData opts dataToSave = Inr d"
    and "v d = Inl e"
  shows "validateData d (validate opts) = False
         \<and> saveToStorage opts tnow dataToSave h = (None, h)
         \<and> saveToStorage (opts\<lparr>validate := Some (\<lambda>x. Inr False)\<rparr>) tnow dataToSave h
             = saveToStorage opts tnow dataToSave h"
proof -
  have v: "validateData d (validate opts) = False"
    using assms(1,3) by (simp add: validateData_def)
  have "processedData (opts\<lparr>validate := Some (\<lambda>x. Inr False)\<rparr>) dataToSave =
          processedData opts dataToSave"
    by (simp add: processedData_def cong: sum.case_cong if_cong)
  then have p: "processedData (opts\<lparr>validate := Some (\<lambda>x. Inr False)\<rparr>) dataToSave = Inr d"
    using assms(2) by simp
  have t1: "saveToStorage_try opts tnow dataToSave h = (None, h)"
    using assms(2) v by (simp add: saveToStorage_try_def)
  have t2: "saveToStorage_try (opts\<lparr>validate := Some (\<lambda>x. Inr False)\<rparr>) tnow dataToSave h
              = (None, h)"
    using p by (simp add: saveToStorage_try_def validateData_def)
  show ?thesis
    using v t1 t2 by (simp add: saveToStorage_def)
qed

theorem C10_validate_throws_witness:
  "validate example_options = Some (\<lambda>d. Inl (Error ''TypeError'' ''validator crashed''))
   \<and> processedData example_options (JObj [(''name'', JStr ''a'')])
        = Inr (JObj [(''name'', JStr ''a'')])
   \<and> saveToStorage example_options 5000 (JObj [(''name'', JStr ''a'')])
        (useFormPersist_init example_options Map.empty)
       = (None, useFormPersist_init example_options Map.empty)"
  using C10_validate_throws [of example_options
          "\<lambda>d. Inl (Error ''TypeError'' ''validator crashed'')"
          "JObj [(''name'', JStr ''a'')]" "JObj [(''name'', JStr ''a'')]"
          "Error ''TypeError'' ''validator crashed''" 5000
          "useFormPersist_init example_options Map.empty"]
  by (simp add: example_options_def processedData_def)

theorem C5_expired_load_witness:
  "\<not> isSSR example_options \<and> enabled example_options
   \<and> [''rfp:form'' \<mapsto> [0x65]] (fullKey example_options) = Some [0x65::16 word]
   \<and> isValidPersistedData (deserialize example_options [0x65])
   \<and> get_prop (deserialize example_options [0x65]) ''expiresAt'' = JNum 2000
   \<and> backend (snd (load_on_mount example_options 3000
                 (useFormPersist_init example_options [''rfp:form'' \<mapsto> [0x65]])))
         (fullKey example_options) = None
   \<and> state (snd (load_on_mount example_options 3000
                 (useFormPersist_init example_options [''rfp:form'' \<mapsto> [0x65]])))
       = initialState example_options"
proof -
  have h1: "\<not> isSSR example_options" and h2: "enabled example_options"
    and h3: "[''rfp:form'' \<mapsto> [0x65]] (fullKey example_options) = Some [0x65::16 word]"
    and h4: "[0x65::16 word] \<noteq> []"
    and h5: "deserialize example_options [0x65] = example_deserialize [0x65]"
    by (simp_all add: example_options_def)
  have h6: "isValidPersistedData (example_deserialize [0x65])"
    and h7: "get_prop (example_deserialize [0x65]) ''expiresAt'' = JNum 2000"
    by (simp_all add: example_deserialize_def isValidPersistedData_def truthy_def
          typeof_object_def typeof_number_def get_prop_def own_lookup_def own_entries_def)
  have h8: "(2000::int) < 3000" by simp
  show ?thesis
    using C5_expired_load [of example_options "[''rfp:form'' \<mapsto> [0x65]]" "[0x65]"
            "example_deserialize [0x65]" 2000 3000, OF h1 h2 h3 h4 h5 h6 h7 h8]
          h1 h2 h3 h5 h6 h7
    by (simp add: useFormPersist_init_def)
qed

subsection \<open>Sync manager\<close>


text \<open>
  Claim C3, as stated: a storage event for the instance's key with a \<open>null\<close> new
  value invokes the callback registered with \<open>onSync(cb)\<close>, with an empty payload
  and source storage; and a broadcast message carrying the instance's own tabId invokes
  nothing. The first half fails: the clear branch calls the \<open>onSync\<close> hook of the
  options and not the registered callback. Below, callback 7 is registered and the
  options carry an \<open>onSync\<close> hook; after the clear event the registered callback
  has not been called, the hook has.
\<close>

theorem C3_clear_event_counterexample:
  "sync_callback (onSync_register (7::nat)
        (new_SyncManager ''test-key'' ''tab-1'' True None False True)) = Some 7
   \<and> callback_calls
        (handleStorageEvent (\<lambda>s. None)
           \<lparr>ev_key = Some ''test-key'', ev_newValue = None\<rparr>
           (onSync_register (7::nat)
              (new_SyncManager ''test-key'' ''tab-1'' True None False True))) = []
   \<and> onSync_calls
        (handleStorageEvent (\<lambda>s. None)
           \<lparr>ev_key = Some ''test-key'', ev_newValue = None\<rparr>
           (onSync_register (7::nat)
              (new_SyncManager ''test-key'' ''tab-1'' True None False True)))
       = [(JUndefined, Storage)]"
  by (simp add: handleStorageEvent_def onSync_register_def new_SyncManager_def
        call_options_onSync_def)

text \<open>
  Claim C3, amended: on an instance that has not been destroyed, a storage event for
  the instance's key with a \<open>null\<close> new value invokes the \<open>onSync\<close> hook of the
  options, if one was supplied, with the payload \<open>undefined\<close> and source storage, and
  does not invoke the callback registered with \<open>onSync(cb)\<close>; and every broadcast
  message whose tabId equals the instance's own is discarded: the instance is left as
  it was and no callback is invoked.
\<close>

theorem C3_sync_clear_and_self_messages:
  "(\<not> isDestroyed m \<and> ev_key event = Some (sm_key m) \<and> ev_newValue event = None \<longrightarrow>
      handleStorageEvent json_parse event m =
        m\<lparr>onSync_calls := onSync_calls m @ (if opt_onSync m then [(JUndefined, Storage)] else [])\<rparr>
      \<and> callback_calls (handleStorageEvent json_parse event m) = callback_calls m)
   \<and> (msg_tabId message = tabId m \<longrightarrow> handleBroadcastMessage message m = m)"
  by (simp add: handleStorageEvent_def handleBroadcastMessage_def call_options_onSync_def)

theorem C3_sync_clear_and_self_messages_witness:
  "\<not> isDestroyed (onSync_register (7::nat)
        (new_SyncManager ''test-key'' ''tab-1'' True None False True))
   \<and> onSync_calls
        (handleStorageEvent (\<lambda>s. None)
           \<lparr>ev_key = Some ''test-key'', ev_newValue = None\<rparr>
           (onSync_register (7::nat)
              (new_SyncManager ''test-key'' ''tab-1'' True None False True)))
       = [(JUndefined, Storage)]
   \<and> handleBroadcastMessage
        \<lparr>msg_type = Update, msg_key = ''test-key'', msg_data = JObj [(''name'', JStr ''x'')],
         msg_timestamp = 1000, msg_tabId = ''tab-1''\<rparr>
        (onSync_register (7::nat) (new_SyncManager ''test-key'' ''tab-1'' True None False True))
       = onSync_register (7::nat) (new_SyncManager ''test-key'' ''tab-1'' True None False True)"
  using C3_sync_clear_and_self_messages
          [of "onSync_register (7::nat)
                 (new_SyncManager ''test-key'' ''tab-1'' True None False True)"
              "\<lparr>ev_key = Some ''test-key'', ev_newValue = None\<rparr>"
              "\<lambda>s. None"
              "\<lparr>msg_type = Update, msg_key = ''test-key'',
                msg_data = JObj [(''name'', JStr ''x'')],
                msg_timestamp = 1000, msg_tabId = ''tab-1''\<rparr>"]
  by (simp add: onSync_register_def new_SyncManager_def)

subsection \<open>Transform pipeline\<close>

subsubsection \<open>Base64\<close>

lemma div_block: "y < k \<Longrightarrow> (x * k + y) div k = (x::nat)"
  by simp

lemma mod_block: "y < k \<Longrightarrow> (x * k + y) mod k = (y::nat)"
  by simp

lemma radix3:
  assumes "(q2::nat) * 64 + r2 = q1" and "q1 * 64 + r1 = n"
  shows "q2 * 4096 + r2 * 64 + r1 = n"
  using assms by linarith

lemma radix4:
  assumes "(q3::nat) * 64 + r3 = q2" and "q2 * 64 + r2 = q1" and "q1 * 64 + r1 = n"
  shows "q3 * 262144 + r3 * 4096 + r2 * 64 + r1 = n"
  using assms by linarith

lemma base64_value_char: "n < 64 \<Longrightarrow> base64_value (base64_char n) = Some n"
  by (auto simp: base64_value_def base64_char_def)

lemma base64_char_not_pad: "n < 64 \<Longrightarrow> base64_char n \<noteq> 61"
  by (auto simp: base64_char_def)

lemma base64_encode_Nil: "base64_encode bs = [] \<longleftrightarrow> bs = []"
  by (induction bs rule: base64_encode.induct) simp_all

lemma base64_four_chars:
  assumes "a < 256" and "b < 256" and "c < 256"
  shows "base64_four (base64_char (a div 4)) (base64_char (a mod 4 * 16 + b div 16))
           (base64_char (b mod 16 * 4 + c div 64)) (base64_char (c mod 64)) = Some [a, b, c]"
proof -
  have r: "a div 4 < 64" "a mod 4 * 16 + b div 16 < 64" "b mod 16 * 4 + c div 64 < 64"
    "c mod 64 < 64"
    using assms by auto
  have small: "b div 16 < 16" "c div 64 < 4"
    using assms by simp_all
  have v: "a div 4 * 4 + (a mod 4 * 16 + b div 16) div 16 = a"
    "(a mod 4 * 16 + b div 16) mod 16 * 16 + (b mod 16 * 4 + c div 64) div 4 = b"
    "(b mod 16 * 4 + c div 64) mod 4 * 64 + c mod 64 = c"
    by (simp_all only: div_block [OF small(1)] mod_block [OF small(1)]
          div_block [OF small(2)] mod_block [OF small(2)] div_mult_mod_eq)
  show ?thesis
    using r v by (simp add: base64_four_def base64_value_char)
qed

lemma base64_three_chars:
  assumes "a < 256" and "b < 256"
  shows "base64_three (base64_char (a div 4)) (base64_char (a mod 4 * 16 + b div 16))
           (base64_char (b mod 16 * 4)) = Some [a, b]"
proof -
  have r: "a div 4 < 64" "a mod 4 * 16 + b div 16 < 64" "b mod 16 * 4 < 64"
    using assms by auto
  have small: "b div 16 < 16"
    using assms by simp
  have v: "a div 4 * 4 + (a mod 4 * 16 + b div 16) div 16 = a"
    "(a mod 4 * 16 + b div 16) mod 16 * 16 + (b mod 16 * 4) div 4 = b"
    using div_block [OF small, of "a mod 4"] mod_block [OF small, of "a mod 4"] by simp_all
  show ?thesis
    using r v by (simp add: base64_three_def base64_value_char)
qed

lemma base64_two_chars:
  assumes "a < 256"
  shows "base64_two (base64_char (a div 4)) (base64_char (a mod 4 * 16)) = Some [a]"
proof -
  have r: "a div 4 < 64" "a mod 4 * 16 < 64"
    using assms by auto
  have "(a mod 4 * 16) div 16 = a mod 4" by simp
  moreover have "a div 4 * 4 + a mod 4 = a" by (rule div_mult_mod_eq)
  ultimately have v: "a div 4 * 4 + (a mod 4 * 16) div 16 = a"
    by linarith
  show ?thesis
    using r v by (simp add: base64_two_def base64_value_char)
qed

lemma base64_decode_encode:
  "\<forall>b \<in> set bs. b < 256 \<Longrightarrow> base64_decode (base64_encode bs) = Some bs"
proof (induction bs rule: base64_encode.induct)
  case 1
  then show ?case by simp
next
  case (2 a)
  then show ?case by (simp add: base64_two_chars)
next
  case (3 a b)
  then have pad: "base64_char (b mod 16 * 4) \<noteq> 61"
    by (intro base64_char_not_pad) auto
  show ?case using 3 pad by (simp add: base64_three_chars)
next
  case (4 a b c rest)
  then have abc: "a < 256" "b < 256" "c < 256" and IH: "base64_decode (base64_encode rest) = Some rest"
    by simp_all
  have pad: "base64_char (c mod 64) \<noteq> 61"
    by (intro base64_char_not_pad) auto
  show ?case
  proof (cases "base64_encode rest")
    case Nil
    then have "rest = []" by (simp add: base64_encode_Nil)
    then show ?thesis
      using Nil pad base64_four_chars [OF abc] by simp
  next
    case (Cons e es)
    then show ?thesis
      using IH base64_four_chars [OF abc] by simp
  qed
qed

lemma base64_char_plain: "base64_char n < 128 \<and> \<not> ascii_whitespace (base64_char n)"
  by (auto simp: base64_char_def ascii_whitespace_def)

lemma base64_encode_chars:
  "c \<in> set (base64_encode bs) \<Longrightarrow> c < 128 \<and> \<not> ascii_whitespace c"
proof (induction bs rule: base64_encode.induct)
  case 1
  then show ?case by simp
next
  case (2 a)
  then have "c = 61 \<or> (\<exists>n. c = base64_char n)" by auto
  then show ?case using base64_char_plain by (auto simp: ascii_whitespace_def)
next
  case (3 a b)
  then have "c = 61 \<or> (\<exists>n. c = base64_char n)" by auto
  then show ?case using base64_char_plain by (auto simp: ascii_whitespace_def)
next
  case (4 a b c' rest)
  then have "(\<exists>n. c = base64_char n) \<or> c \<in> set (base64_encode rest)" by auto
  then show ?case using base64_char_plain 4 by auto
qed

subsubsection \<open>Percent escapes\<close>

lemma hex_value_lower: "d < 16 \<Longrightarrow> hex_value (lower_hex d) = Some d"
  by (auto simp: hex_value_def lower_hex_def)

lemma percent_tokens_lower:
  assumes "\<forall>b \<in> set bs. b < 256"
  shows "percent_tokens
           (concat (map (\<lambda>b. [37, lower_hex (b div 16 mod 16), lower_hex (b mod 16)]) bs))
         = Some (map Inl bs)"
  using assms
proof (induction bs)
  case Nil
  then show ?case by simp
next
  case (Cons b bs)
  then have b: "b < 256" by simp
  have d: "b div 16 mod 16 < 16" "b mod 16 < 16" by simp_all
  have "b div 16 < 16" using b by simp
  then have "b div 16 mod 16 = b div 16" by simp
  then have v: "16 * (b div 16 mod 16) + b mod 16 = b" by simp
  show ?case
    using Cons d v by (simp add: hex_value_lower)
qed

subsubsection \<open>UTF-8 and UTF-16\<close>

lemma utf8_value_octets: "utf8_value (utf8_octets cp) = cp"
proof -
  have d: "cp div 4096 = cp div 64 div 64" "cp div 262144 = cp div 64 div 64 div 64"
    by (simp_all add: div_mult2_eq [symmetric])
  have m: "cp div 64 div 64 div 64 * 64 + cp div 64 div 64 mod 64 = cp div 64 div 64"
    "cp div 64 div 64 * 64 + cp div 64 mod 64 = cp div 64"
    "cp div 64 * 64 + cp mod 64 = cp"
    by (simp_all only: div_mult_mod_eq)
  have two: "cp div 64 * 64 + cp mod 64 = cp"
    by (rule m(3))
  have three: "cp div 4096 * 4096 + cp div 64 mod 64 * 64 + cp mod 64 = cp"
    unfolding d by (rule radix3 [OF m(2) m(3)])
  have four: "cp div 262144 * 262144 + cp div 4096 mod 64 * 4096
                + cp div 64 mod 64 * 64 + cp mod 64 = cp"
    unfolding d by (rule radix4 [OF m(1) m(2) m(3)])
  consider "cp < 0x80" | "0x80 \<le> cp \<and> cp < 0x800" | "0x800 \<le> cp \<and> cp < 0x10000"
    | "0x10000 \<le> cp" by linarith
  then show ?thesis
  proof cases
    case 1
    then show ?thesis by (simp add: utf8_octets_def)
  next
    case 2
    then have "utf8_octets cp = [0xC0 + cp div 64, 0x80 + cp mod 64]"
      by (simp add: utf8_octets_def)
    then show ?thesis using two by simp
  next
    case 3
    then have "utf8_octets cp =
        [0xE0 + cp div 4096, 0x80 + cp div 64 mod 64, 0x80 + cp mod 64]"
      by (simp add: utf8_octets_def)
    then show ?thesis using three by simp
  next
    case 4
    then have "utf8_octets cp =
        [0xF0 + cp div 262144, 0x80 + cp div 4096 mod 64, 0x80 + cp div 64 mod 64,
         0x80 + cp mod 64]"
      by (simp add: utf8_octets_def)
    then show ?thesis using four by simp
  qed
qed

lemma utf8_code_point_octets:
  assumes "valid_scalar cp"
  shows "utf8_code_point (utf8_octets cp) = Some cp"
  using assms by (simp add: utf8_code_point_def utf8_value_octets valid_scalar_def)

lemma utf8_tokens_octets:
  assumes "valid_scalar cp"
  shows "utf8_tokens (map Inl (utf8_octets cp) @ ts) =
           map_option ((@) (utf16_units cp)) (utf8_tokens ts)"
proof -
  have c: "cp < 0x110000" using assms by (simp add: valid_scalar_def)
  note cpo = utf8_code_point_octets [OF assms]
  consider "cp < 0x80" | "0x80 \<le> cp \<and> cp < 0x800" | "0x800 \<le> cp \<and> cp < 0x10000"
    | "0x10000 \<le> cp" by linarith
  then show ?thesis
  proof cases
    case 1
    have "(@) [cp] = (#) cp" by auto
    then show ?thesis
      using 1 by (simp add: utf8_octets_def utf16_units_def)
  next
    case 2
    then have o: "utf8_octets cp = [0xC0 + cp div 64, 0x80 + cp mod 64]"
      by (simp add: utf8_octets_def)
    have "cp div 64 < 32"
      using 2 by (simp add: div_less_iff_less_mult)
    then have lead: "\<not> 0xC0 + cp div 64 < (0x80::nat)" "\<not> 0xC0 + cp div 64 < (0xC0::nat)"
      "0xC0 + cp div 64 < (0xE0::nat)"
      by linarith+
    show ?thesis using cpo lead unfolding o by simp
  next
    case 3
    then have o: "utf8_octets cp =
        [0xE0 + cp div 4096, 0x80 + cp div 64 mod 64, 0x80 + cp mod 64]"
      by (simp add: utf8_octets_def)
    have "cp div 4096 < 16"
      using 3 by (simp add: div_less_iff_less_mult)
    then have lead: "\<not> 0xE0 + cp div 4096 < (0x80::nat)" "\<not> 0xE0 + cp div 4096 < (0xC0::nat)"
      "\<not> 0xE0 + cp div 4096 < (0xE0::nat)" "0xE0 + cp div 4096 < (0xF0::nat)"
      by linarith+
    show ?thesis using cpo lead unfolding o by simp
  next
    case 4
    then have o: "utf8_octets cp =
        [0xF0 + cp div 262144, 0x80 + cp div 4096 mod 64, 0x80 + cp div 64 mod 64,
         0x80 + cp mod 64]"
      by (simp add: utf8_octets_def)
    have "cp div 262144 < 8"
      using c by (simp add: div_less_iff_less_mult)
    then have lead: "\<not> 0xF0 + cp div 262144 < (0x80::nat)" "\<not> 0xF0 + cp div 262144 < (0xC0::nat)"
      "\<not> 0xF0 + cp div 262144 < (0xE0::nat)" "\<not> 0xF0 + cp div 262144 < (0xF0::nat)"
      "0xF0 + cp div 262144 < (0xF8::nat)"
      by linarith+
    show ?thesis using cpo lead unfolding o by simp
  qed
qed

lemma utf8_tokens_code_points:
  "\<forall>cp \<in> set cps. valid_scalar cp \<Longrightarrow>
   utf8_tokens (map Inl (concat (map utf8_octets cps))) = Some (concat (map utf16_units cps))"
proof (induction cps)
  case Nil
  then show ?case by simp
next
  case (Cons cp cps)
  then show ?case
    using utf8_tokens_octets [of cp "map Inl (concat (map utf8_octets cps))"] by simp
qed

lemma utf8_octets_bytes:
  assumes "cp < 0x110000" and "b \<in> set (utf8_octets cp)"
  shows "b < 256"
proof -
  have m: "cp mod 64 < 64" "cp div 64 mod 64 < 64" "cp div 4096 mod 64 < 64"
    by simp_all
  have d3: "cp div 262144 < 8"
    using assms(1) by (simp add: div_less_iff_less_mult)
  consider "cp < 0x80" | "0x80 \<le> cp \<and> cp < 0x800" | "0x800 \<le> cp \<and> cp < 0x10000"
    | "0x10000 \<le> cp" by linarith
  then show ?thesis
  proof cases
    case 1
    then show ?thesis using assms(2) by (simp add: utf8_octets_def)
  next
    case 2
    then have "cp div 64 < 32" by (simp add: div_less_iff_less_mult)
    moreover have "b = 0xC0 + cp div 64 \<or> b = 0x80 + cp mod 64"
      using 2 assms(2) by (simp add: utf8_octets_def)
    ultimately show ?thesis using m by linarith
  next
    case 3
    then have "cp div 4096 < 16" by (simp add: div_less_iff_less_mult)
    moreover have "b = 0xE0 + cp div 4096 \<or> b = 0x80 + cp div 64 mod 64
                     \<or> b = 0x80 + cp mod 64"
      using 3 assms(2) by (simp add: utf8_octets_def)
    ultimately show ?thesis using m by linarith
  next
    case 4
    then have "b = 0xF0 + cp div 262144 \<or> b = 0x80 + cp div 4096 mod 64
                 \<or> b = 0x80 + cp div 64 mod 64 \<or> b = 0x80 + cp mod 64"
      using assms(2) by (simp add: utf8_octets_def)
    then show ?thesis using m d3 by linarith
  qed
qed

lemma utf16_code_points_roundtrip:
  "utf16_code_points s = Some cps \<Longrightarrow> \<forall>u \<in> set s. u < 65536 \<Longrightarrow>
   concat (map utf16_units cps) = s \<and> (\<forall>cp \<in> set cps. valid_scalar cp)"
proof (induction s arbitrary: cps rule: utf16_code_points.induct)
  case 1
  then show ?case by simp
next
  case (2 u)
  then show ?case
    by (auto simp: utf16_units_def valid_scalar_def split: if_splits)
next
  case (3 u l rest)
  show ?case
  proof (cases "is_high_surrogate u")
    case True
    then have low: "is_low_surrogate l"
      using "3.prems"(1) by (auto split: if_splits)
    then obtain cps' where r: "utf16_code_points rest = Some cps'"
      and cps: "cps = (0x10000 + (u - 0xD800) * 0x400 + (l - 0xDC00)) # cps'"
      using "3.prems"(1) True by auto
    let ?cp = "0x10000 + (u - 0xD800) * 0x400 + (l - 0xDC00)"
    have ur: "0xD800 \<le> u" "u \<le> 0xDBFF" "0xDC00 \<le> l" "l \<le> 0xDFFF"
      using True low by (simp_all add: is_high_surrogate_def is_low_surrogate_def)
    have lo: "l - 0xDC00 < 0x400" using ur by simp
    have "(u - 0xD800) * 0x400 + (l - 0xDC00) div 0x400 = (u - 0xD800) * 0x400"
      using lo by simp
    have dv: "((u - 0xD800) * 0x400 + (l - 0xDC00)) div 0x400 = u - 0xD800"
      "((u - 0xD800) * 0x400 + (l - 0xDC00)) mod 0x400 = l - 0xDC00"
      using div_block [OF lo] mod_block [OF lo] by simp_all
    have "?cp - 0x10000 = (u - 0xD800) * 0x400 + (l - 0xDC00)" by simp
    then have units: "utf16_units ?cp = [u, l]"
      using ur dv by (simp add: utf16_units_def)
    have valid: "valid_scalar ?cp"
      using ur by (simp add: valid_scalar_def is_high_surrogate_def is_low_surrogate_def)
    have "concat (map utf16_units cps') = rest \<and> (\<forall>cp \<in> set cps'. valid_scalar cp)"
      using "3.IH"(1) [OF True low r] "3.prems"(2) by simp
    then show ?thesis using cps units valid by simp
  next
    case False
    then have nl: "\<not> is_low_surrogate u"
      using "3.prems"(1) by (auto split: if_splits)
    then obtain cps' where r: "utf16_code_points (l # rest) = Some cps'"
      and cps: "cps = u # cps'"
      using "3.prems"(1) False by auto
    have "concat (map utf16_units cps') = l # rest \<and> (\<forall>cp \<in> set cps'. valid_scalar cp)"
      using "3.IH"(2) [OF False nl r] "3.prems"(2) by simp
    moreover have "utf16_units u = [u]" "valid_scalar u"
      using "3.prems"(2) False nl by (simp_all add: utf16_units_def valid_scalar_def)
    ultimately show ?thesis using cps by simp
  qed
qed

lemma compress_loop_result:
  "compress_loop cs prevChar count result = result @ compress_loop cs prevChar count []"
proof (induction cs arbitrary: prevChar count result)
  case Nil
  then show ?case by simp
next
  case (Cons c cs)
  show ?case
    using Cons.IH [of prevChar "count + 1" result]
          Cons.IH [of c 1 "result @ emit_run prevChar count"]
          Cons.IH [of c 1 "emit_run prevChar count"]
    by simp
qed

lemma decompress_literal:
  "c \<noteq> 0 \<Longrightarrow> decompress_loop (replicate n c @ rest) result =
                decompress_loop rest (result @ replicate n c)"
proof (induction n arbitrary: result)
  case 0
  then show ?case by simp
next
  case (Suc n)
  then show ?case by (simp add: replicate_append_same)
qed

lemma unat_count: "count \<le> 255 \<Longrightarrow> unat (of_nat count :: 16 word) = count"
  by (simp add: unsigned_of_nat take_bit_nat_eq_self)

lemma decompress_emit_run:
  assumes "prevChar \<noteq> 0" and "count \<le> 255"
  shows "decompress_loop (emit_run prevChar count @ rest) result =
           decompress_loop rest (result @ replicate count prevChar)"
proof (cases "count \<ge> 4")
  case True
  then show ?thesis using assms by (simp add: emit_run_def unat_count)
next
  case False
  then show ?thesis using assms by (simp add: emit_run_def decompress_literal)
qed

lemma decompress_compress_loop:
  assumes "prevChar \<noteq> 0" and "0 \<notin> set cs" and "count \<le> 255"
  shows "decompress_loop (compress_loop cs prevChar count []) result =
           Inr (result @ replicate count prevChar @ cs)"
  using assms
proof (induction cs arbitrary: prevChar count result)
  case Nil
  then show ?case
    using decompress_emit_run [of prevChar count "[]" result] by simp
next
  case (Cons c cs)
  then have c: "c \<noteq> 0" and cs: "0 \<notin> set cs" by auto
  show ?case
  proof (cases "c = prevChar \<and> count < 255")
    case True
    then have "decompress_loop (compress_loop (c # cs) prevChar count []) result =
                 decompress_loop (compress_loop cs prevChar (count + 1) []) result"
      by simp
    also have "\<dots> = Inr (result @ replicate (count + 1) prevChar @ cs)"
      using Cons.IH [of prevChar "count + 1" result] Cons.prems(1) cs True by simp
    finally show ?thesis using True by (simp add: replicate_append_same)
  next
    case False
    then have "compress_loop (c # cs) prevChar count [] =
                 emit_run prevChar count @ compress_loop cs c 1 []"
      using compress_loop_result [of cs c 1 "emit_run prevChar count"] by auto
    then have "decompress_loop (compress_loop (c # cs) prevChar count []) result =
                 decompress_loop (compress_loop cs c 1 []) (result @ replicate count prevChar)"
      using decompress_emit_run [OF Cons.prems(1) Cons.prems(3)] by simp
    also have "\<dots> = Inr ((result @ replicate count prevChar) @ replicate 1 c @ cs)"
      using Cons.IH [of c 1 "result @ replicate count prevChar"] c cs by simp
    finally show ?thesis by simp
  qed
qed

lemma simpleDecompress_simpleCompress:
  assumes "0 \<notin> set d" and "d = [] \<or> hd d \<noteq> 1"
  shows "simpleDecompress (simpleCompress d) = Inr d"
proof (cases d)
  case Nil
  then show ?thesis by (simp add: simpleCompress_def simpleDecompress_def)
next
  case (Cons first rest)
  have raw: "simpleDecompress d = Inr d"
    using assms(2) Cons by (simp add: simpleDecompress_def)
  have f: "first \<noteq> 0" "0 \<notin> set rest" using assms(1) Cons by auto
  have packed: "simpleDecompress (1 # compress_loop rest first 1 []) = Inr d"
    using decompress_compress_loop [OF f, of 1 "[]"] Cons by (simp add: simpleDecompress_def)
  show ?thesis
    using raw packed Cons by (auto simp: simpleCompress_def Let_def)
qed

lemma unat_of_nat_16: "n < 65536 \<Longrightarrow> unat (of_nat n :: 16 word) = n"
  by (simp add: unsigned_of_nat take_bit_nat_eq_self)

lemma map_unat_of_nat:
  "\<forall>n \<in> set ns. n < 65536 \<Longrightarrow> map unat (map of_nat ns :: jsstring) = ns"
  by (induction ns) (simp_all add: unat_of_nat_16)

lemma map_of_nat_unat: "map of_nat (map unat s) = (s :: jsstring)"
  by (induction s) simp_all

lemma map_of_nat_unat_comp: "map (of_nat \<circ> unat) s = (s :: jsstring)"
  by (induction s) simp_all

lemma upper_hex_digit:
  assumes "d < 16"
  shows "is_upper_hex (of_nat (upper_hex d)) \<and> upper_hex_value (of_nat (upper_hex d)) = d"
proof -
  have "upper_hex d < 65536" using assms by (simp add: upper_hex_def)
  then have u: "unat (of_nat (upper_hex d) :: 16 word) = upper_hex d"
    by (rule unat_of_nat_16)
  show ?thesis
    unfolding is_upper_hex_def upper_hex_value_def u using assms
    by (auto simp: upper_hex_def)
qed

lemma replace_escapes_plain:
  "c \<noteq> 0x25 \<Longrightarrow> replace_escapes (c # rest) = c # replace_escapes rest"
proof (cases rest)
  case Nil
  then show ?thesis by simp
next
  case (Cons a r)
  assume "c \<noteq> 0x25"
  then show ?thesis using Cons by (cases r) simp_all
qed

lemma replace_escapes_escape:
  assumes "octet < 256"
  shows "replace_escapes (map of_nat (percent_escape octet) @ rest) =
           of_nat octet # replace_escapes rest"
proof -
  have d: "octet div 16 < 16" "octet mod 16 < 16" using assms by simp_all
  have v: "16 * (octet div 16) + octet mod 16 = octet" by simp
  show ?thesis
    using upper_hex_digit [OF d(1)] upper_hex_digit [OF d(2)] v
    by (simp add: percent_escape_def)
qed

lemma replace_escapes_octets:
  "\<forall>b \<in> set bs. b < 256 \<Longrightarrow>
   replace_escapes (map of_nat (concat (map percent_escape bs)) @ rest) =
     map of_nat bs @ replace_escapes rest"
proof (induction bs)
  case Nil
  then show ?case by simp
next
  case (Cons b bs)
  then show ?case
    using replace_escapes_escape [of b "map of_nat (concat (map percent_escape bs)) @ rest"]
    by simp
qed

lemma unreserved_octets: "uriUnreserved cp \<Longrightarrow> utf8_octets cp = [cp] \<and> cp \<noteq> 37 \<and> cp < 128"
  by (auto simp: uriUnreserved_def utf8_octets_def)

lemma replace_escapes_code_point:
  assumes "valid_scalar cp"
  shows "replace_escapes (map of_nat (uri_encode_code_point cp) @ rest) =
           map of_nat (utf8_octets cp) @ replace_escapes rest"
proof (cases "uriUnreserved cp")
  case True
  then have u: "utf8_octets cp = [cp]" "cp \<noteq> 37" "cp < 128"
    using unreserved_octets by simp_all
  have "unat (of_nat cp :: 16 word) = cp" using u(3) by (simp add: unat_of_nat_16)
  then have "(of_nat cp :: 16 word) \<noteq> 0x25" using u(2) by auto
  then show ?thesis
    using True u(1) by (simp add: uri_encode_code_point_def replace_escapes_plain)
next
  case False
  have "\<forall>b \<in> set (utf8_octets cp). b < 256"
    using utf8_octets_bytes assms by (auto simp: valid_scalar_def)
  then show ?thesis
    using False by (simp add: uri_encode_code_point_def replace_escapes_octets)
qed

lemma replace_escapes_code_points:
  "\<forall>cp \<in> set cps. valid_scalar cp \<Longrightarrow>
   replace_escapes (map of_nat (concat (map uri_encode_code_point cps))) =
     map of_nat (concat (map utf8_octets cps))"
proof (induction cps)
  case Nil
  then show ?case by simp
next
  case (Cons cp cps)
  then show ?case
    using replace_escapes_code_point
            [of cp "map of_nat (concat (map uri_encode_code_point cps))"]
    by simp
qed

lemma octets_of_code_points:
  "\<forall>cp \<in> set cps. valid_scalar cp \<Longrightarrow> \<forall>b \<in> set (concat (map utf8_octets cps)). b < 256"
  using utf8_octets_bytes by (auto simp: valid_scalar_def)

lemma btoa_octets:
  assumes "\<forall>b \<in> set bs. b < 256"
  shows "btoa (map of_nat bs) = Inr (map of_nat (base64_encode bs))"
proof -
  have small: "\<forall>b \<in> set bs. b < 65536" using assms by auto
  have u: "map unat (map of_nat bs :: jsstring) = bs"
    using small by (rule map_unat_of_nat)
  have "\<not> list_ex (\<lambda>c. unat c > 255) (map of_nat bs :: jsstring)"
    using assms small by (auto simp: list_ex_iff unat_of_nat_16)
  then show ?thesis using u by (simp add: btoa_def)
qed

lemma atob_btoa_octets:
  assumes "\<forall>b \<in> set bs. b < 256"
  shows "atob (map of_nat (base64_encode bs)) = Inr (map of_nat bs)"
proof -
  have chars: "\<forall>c \<in> set (base64_encode bs). c < 128 \<and> \<not> ascii_whitespace c"
    using base64_encode_chars by blast
  then have "\<forall>c \<in> set (base64_encode bs). c < 65536" by auto
  then have u: "map unat (map of_nat (base64_encode bs) :: jsstring) = base64_encode bs"
    by (rule map_unat_of_nat)
  have f: "filter (\<lambda>c. \<not> ascii_whitespace c) (base64_encode bs) = base64_encode bs"
    using chars by (simp add: filter_id_conv)
  show ?thesis
    using u f base64_decode_encode [OF assms] by (simp add: atob_def)
qed

lemma lower_hex_small: "d < 16 \<Longrightarrow> lower_hex d < 65536"
  by (simp add: lower_hex_def)

lemma percent_all_octets:
  assumes "\<forall>b \<in> set bs. b < 256"
  shows "map unat (percent_all (map of_nat bs)) =
           concat (map (\<lambda>b. [37, lower_hex (b div 16 mod 16), lower_hex (b mod 16)]) bs)"
  using assms
proof (induction bs)
  case Nil
  then show ?case by (simp add: percent_all_def)
next
  case (Cons b bs)
  then have b: "b < 256" by simp
  then have u: "unat (of_nat b :: 16 word) = b" by (simp add: unat_of_nat_16)
  have h: "lower_hex (b div 16 mod 16) < 65536" "lower_hex (b mod 16) < 65536"
    by (rule lower_hex_small, simp)+
  have "map unat (percent_all (map of_nat bs)) =
          concat (map (\<lambda>b. [37, lower_hex (b div 16 mod 16), lower_hex (b mod 16)]) bs)"
    using Cons by simp
  then show ?case
    using u h by (simp add: percent_all_def unat_of_nat_16)
qed

lemma decodeURIComponent_percent_all:
  assumes "\<forall>cp \<in> set cps. valid_scalar cp"
  shows "decodeURIComponent (percent_all (map of_nat (concat (map utf8_octets cps)))) =
           Inr (map of_nat (concat (map utf16_units cps)))"
proof -
  have bytes: "\<forall>b \<in> set (concat (map utf8_octets cps)). b < 256"
    using assms by (rule octets_of_code_points)
  show ?thesis
    using percent_all_octets [OF bytes] percent_tokens_lower [OF bytes]
      utf8_tokens_code_points [OF assms]
    by (simp add: decodeURIComponent_def uri_decode_def)
qed

lemma well_formed_code_points:
  "surrogate_pairing False s = Some False \<Longrightarrow> \<exists>cps. utf16_code_points (map unat s) = Some cps"
proof (induction s rule: induct_list012)
  case 1
  then show ?case by simp
next
  case (2 u)
  then show ?case by (auto split: if_splits)
next
  case (3 u l rest)
  show ?case
  proof (cases "is_high_surrogate (unat u)")
    case True
    then have low: "is_low_surrogate (unat l)" and r: "surrogate_pairing False rest = Some False"
      using "3.prems" by (auto split: if_splits)
    then show ?thesis using True "3.IH"(1) by auto
  next
    case False
    then have nl: "\<not> is_low_surrogate (unat u)"
      and r: "surrogate_pairing False (l # rest) = Some False"
      using "3.prems" by (auto split: if_splits)
    then show ?thesis using False "3.IH"(2) by auto
  qed
qed

lemma base64_roundtrip:
  assumes "well_formed s"
  shows "\<exists>t. base64Encode s = Inr t \<and> base64Decode t = s"
proof -
  obtain cps where cps: "utf16_code_points (map unat s) = Some cps"
    using assms well_formed_code_points by (auto simp: well_formed_def)
  have units: "\<forall>u \<in> set (map unat s). u < 65536"
  proof
    fix u assume "u \<in> set (map unat s)"
    then obtain w :: "16 word" where "u = unat w" by auto
    then show "u < 65536" using unsigned_less [of w] by simp
  qed
  have rt: "concat (map utf16_units cps) = map unat s" and valid: "\<forall>cp \<in> set cps. valid_scalar cp"
    using utf16_code_points_roundtrip [OF cps units] by simp_all
  let ?octets = "concat (map utf8_octets cps)"
  have bytes: "\<forall>b \<in> set ?octets. b < 256"
    using valid by (rule octets_of_code_points)
  have enc: "encodeURIComponent s = Inr (map of_nat (concat (map uri_encode_code_point cps)))"
    using cps by (simp add: encodeURIComponent_def uri_encode_def)
  have e: "base64Encode s = Inr (map of_nat (base64_encode ?octets))"
    using enc replace_escapes_code_points [OF valid] btoa_octets [OF bytes]
    by (simp add: base64Encode_def)
  have d: "base64Decode (map of_nat (base64_encode ?octets)) = s"
    using atob_btoa_octets [OF bytes] decodeURIComponent_percent_all [OF valid] rt
    by (simp add: base64Decode_def map_of_nat_unat_comp)
  show ?thesis using e d by simp
qed

lemma surrogate_pairing_append:
  "surrogate_pairing b (xs @ ys) =
     (case surrogate_pairing b xs of None \<Rightarrow> None | Some b' \<Rightarrow> surrogate_pairing b' ys)"
  by (induction xs arbitrary: b) simp_all

lemma surrogate_pairing_run:
  assumes "surrogate_pairing b (replicate n c) = Some b'" and "2 \<le> n"
  shows "\<not> is_high_surrogate (unat c) \<and> \<not> is_low_surrogate (unat c) \<and> \<not> b \<and> \<not> b'"
proof -
  obtain m where n: "n = Suc (Suc m)"
    using assms(2) by (metis Suc_le_D numeral_2_eq_2 Suc_le_mono)
  have excl: "\<not> (is_high_surrogate (unat c) \<and> is_low_surrogate (unat c))"
    by (auto simp: is_high_surrogate_def is_low_surrogate_def)
  have rest: "surrogate_pairing False (replicate k c) = Some b'' \<Longrightarrow>
              \<not> is_high_surrogate (unat c) \<Longrightarrow> \<not> is_low_surrogate (unat c) \<Longrightarrow> \<not> b''"
    for k b''
    by (induction k) auto
  show ?thesis
    using assms(1) excl rest [of m b'] unfolding n
    by (auto split: if_splits)
qed

lemma surrogate_pairing_emit_run:
  assumes "surrogate_pairing b (replicate count prevChar) = Some b'" and "count \<le> 255"
  shows "surrogate_pairing b (emit_run prevChar count) = Some b'"
proof (cases "count \<ge> 4")
  case False
  then show ?thesis using assms by (simp add: emit_run_def)
next
  case True
  then have r: "\<not> is_high_surrogate (unat prevChar)" "\<not> is_low_surrogate (unat prevChar)"
    "\<not> b" "\<not> b'"
    using surrogate_pairing_run [OF assms(1)] by simp_all
  have cnt: "unat (of_nat count :: 16 word) = count"
    using assms(2) by (rule unat_count)
  have "\<not> is_high_surrogate count" "\<not> is_low_surrogate count"
    using assms(2) by (simp_all add: is_high_surrogate_def is_low_surrogate_def)
  then show ?thesis
    using True r cnt
    by (simp add: emit_run_def is_high_surrogate_def is_low_surrogate_def)
qed

lemma surrogate_pairing_compress_loop:
  assumes "surrogate_pairing b (replicate count prevChar @ cs) = Some b'" and "count \<le> 255"
  shows "surrogate_pairing b (compress_loop cs prevChar count []) = Some b'"
  using assms
proof (induction cs arbitrary: b prevChar count)
  case Nil
  then show ?case by (simp add: surrogate_pairing_emit_run)
next
  case (Cons c cs)
  show ?case
  proof (cases "c = prevChar \<and> count < 255")
    case True
    have "replicate (count + 1) prevChar @ cs = replicate count prevChar @ prevChar # cs"
      by (simp add: replicate_append_same)
    then have "surrogate_pairing b (replicate (count + 1) prevChar @ cs) = Some b'"
      using Cons.prems(1) True by (simp only:)
    then show ?thesis
      using Cons.IH [of b "count + 1" prevChar] True by simp
  next
    case False
    obtain b1 where run: "surrogate_pairing b (replicate count prevChar) = Some b1"
      and rest: "surrogate_pairing b1 (c # cs) = Some b'"
      using Cons.prems(1) by (auto simp: surrogate_pairing_append split: option.splits)
    have e: "surrogate_pairing b (emit_run prevChar count) = Some b1"
      using run Cons.prems(2) by (rule surrogate_pairing_emit_run)
    have "surrogate_pairing b1 (compress_loop cs c 1 []) = Some b'"
      using Cons.IH [of b1 1 c] rest by simp
    moreover have "compress_loop (c # cs) prevChar count [] =
                     emit_run prevChar count @ compress_loop cs c 1 []"
      using False compress_loop_result [of cs c 1 "emit_run prevChar count"] by auto
    ultimately show ?thesis
      using e by (simp add: surrogate_pairing_append)
  qed
qed

lemma well_formed_simpleCompress:
  assumes "well_formed d"
  shows "well_formed (simpleCompress d)"
proof (cases d)
  case Nil
  then show ?thesis using assms by (simp add: simpleCompress_def)
next
  case (Cons first rest)
  have "surrogate_pairing False (replicate 1 first @ rest) = Some False"
    using assms Cons by (simp add: well_formed_def)
  then have "surrogate_pairing False (compress_loop rest first 1 []) = Some False"
    by (rule surrogate_pairing_compress_loop) simp
  then have "well_formed (1 # compress_loop rest first 1 [])"
    by (simp add: well_formed_def is_high_surrogate_def is_low_surrogate_def)
  then show ?thesis
    using assms Cons by (auto simp: simpleCompress_def Let_def)
qed

lemma json_text_plain:
  assumes "json_text s"
  shows "0 \<notin> set s" and "s = [] \<or> hd s \<noteq> 1" and "well_formed s"
proof -
  have all: "\<forall>c \<in> set s. 32 \<le> unat c"
    using assms by (simp add: json_text_def list_all_iff)
  show "0 \<notin> set s"
    using all by fastforce
  show "s = [] \<or> hd s \<noteq> 1"
  proof (cases s)
    case Nil
    then show ?thesis by simp
  next
    case (Cons c cs)
    then have "32 \<le> unat c" using all by simp
    then show ?thesis using Cons by fastforce
  qed
  show "well_formed s"
    using assms by (simp add: json_text_def)
qed


lemma example_encodeURIComponent: "encodeURIComponent example_text = Inr [0x25, 0x37, 0x42, 0x25, 0x32, 0x32, 0x61, 0x25, 0x32, 0x32, 0x25, 0x33, 0x41, 0x31, 0x25, 0x37, 0x44]"
  by (simp add: encodeURIComponent_def example_text_def uri_encode_def is_high_surrogate_def
      is_low_surrogate_def uri_encode_code_point_def uriUnreserved_def utf8_octets_def
      percent_escape_def upper_hex_def)

lemma example_replace_escapes: "replace_escapes [0x25, 0x37, 0x42, 0x25, 0x32, 0x32, 0x61, 0x25, 0x32, 0x32, 0x25, 0x33, 0x41, 0x31, 0x25, 0x37, 0x44] = example_text"
  by (simp add: example_text_def is_upper_hex_def upper_hex_value_def)

lemma example_btoa: "btoa example_text = Inr [0x65, 0x79, 0x4A, 0x68, 0x49, 0x6A, 0x6F, 0x78, 0x66, 0x51, 0x3D, 0x3D]"
  by (simp add: btoa_def example_text_def base64_char_def)

lemma example_base64Encode: "base64Encode example_text = Inr [0x65, 0x79, 0x4A, 0x68, 0x49, 0x6A, 0x6F, 0x78, 0x66, 0x51, 0x3D, 0x3D]"
  unfolding base64Encode_def example_encodeURIComponent by (simp only: sum.case example_replace_escapes example_btoa)

lemma example_serialize: "pipeline_serialize example_json
               \<lparr>custom_serialize = None, custom_deserialize = None\<rparr>
               (CompressOptions (Some 0)) True example_value
             = Inr [0x65, 0x79, 0x4A, 0x68, 0x49, 0x6A, 0x6F, 0x78, 0x66, 0x51, 0x3D, 0x3D]"
proof -
  have "simpleCompress example_text = example_text"
    by (simp add: simpleCompress_def DEFAULT_COMPRESSION_THRESHOLD_def example_text_def)
  then have "(if shouldCompress (CompressOptions (Some 0)) \<and>
                 int (length example_text) \<ge> compressionThreshold (CompressOptions (Some 0))
              then simpleCompress example_text else example_text) = example_text"
    by simp
  moreover have "defaultSerialize example_json example_value = Inr example_text"
    by (simp add: defaultSerialize_def example_json_def)
  ultimately show ?thesis
    unfolding pipeline_serialize_def by (simp add: example_base64Encode)
qed

text \<open>
  Claim C1: for every JSON-representable value \<open>x\<close> and every configuration of the
  pipeline with the default JSON serializer, compression on or off (with any threshold),
  obfuscation on or off, \<open>deserialize (serialize x)\<close> is \<open>x\<close> again. JSON.stringify
  and JSON.parse are the host's: \<open>x\<close> is taken JSON-representable in the sense that
  JSON.stringify returns a text \<open>s\<close> for it which JSON.parse reads back as \<open>x\<close>, and
  \<open>s\<close> is a text as JSON.stringify produces them, with no code unit below U+0020 and
  no lone surrogate. Then serialize returns a string and deserialize maps it to \<open>x\<close>.
\<close>

theorem C1_pipeline_roundtrip:
  assumes "JSON_stringify J x = Inr s" and "JSON_parse J s = Some x" and "json_text s"
  shows "\<exists>stored.
           pipeline_serialize J \<lparr>custom_serialize = None, custom_deserialize = None\<rparr> c encrypt x
             = Inr stored \<and>
           pipeline_deserialize J \<lparr>custom_serialize = None, custom_deserialize = None\<rparr> c encrypt
             stored = x"
proof -
  let ?opts = "\<lparr>custom_serialize = None, custom_deserialize = None\<rparr>"
  let ?packed = "if shouldCompress c \<and> int (length s) \<ge> compressionThreshold c
                 then simpleCompress s else s"
  note plain = json_text_plain [OF assms(3)]
  have unpack: "(if shouldCompress c then simpleDecompress ?packed else Inr ?packed) = Inr s"
  proof (cases "shouldCompress c")
    case False
    then show ?thesis by simp
  next
    case True
    have "simpleDecompress s = Inr s"
      using plain(2) by (cases s) (simp_all add: simpleDecompress_def)
    then show ?thesis
      using True simpleDecompress_simpleCompress [OF plain(1,2)] by simp
  qed
  have parse: "defaultDeserialize J s = x"
    using assms(2) by (simp add: defaultDeserialize_def)
  have wf: "well_formed ?packed"
    using plain(3) well_formed_simpleCompress by simp
  show ?thesis
  proof (cases encrypt)
    case False
    have "pipeline_serialize J ?opts c encrypt x = Inr ?packed"
      using assms(1) False by (simp add: pipeline_serialize_def defaultSerialize_def Let_def)
    moreover have "pipeline_deserialize J ?opts c encrypt ?packed = x"
      using False unpack parse by (simp add: pipeline_deserialize_def Let_def)
    ultimately show ?thesis by blast
  next
    case True
    obtain t where t: "base64Encode ?packed = Inr t" "base64Decode t = ?packed"
      using base64_roundtrip [OF wf] by blast
    have "pipeline_serialize J ?opts c encrypt x = Inr t"
      using assms(1) True t(1)
      by (simp add: pipeline_serialize_def defaultSerialize_def Let_def)
    moreover have "pipeline_deserialize J ?opts c encrypt t = x"
      using True t(2) unpack parse by (simp add: pipeline_deserialize_def Let_def)
    ultimately show ?thesis by blast
  qed
qed

theorem C1_pipeline_roundtrip_witness:
  "pipeline_serialize example_json \<lparr>custom_serialize = None, custom_deserialize = None\<rparr>
     (CompressOptions (Some 0)) True example_value
     = Inr [0x65, 0x79, 0x4A, 0x68, 0x49, 0x6A, 0x6F, 0x78, 0x66, 0x51, 0x3D, 0x3D] \<and>
   pipeline_deserialize example_json \<lparr>custom_serialize = None, custom_deserialize = None\<rparr>
     (CompressOptions (Some 0)) True
     [0x65, 0x79, 0x4A, 0x68, 0x49, 0x6A, 0x6F, 0x78, 0x66, 0x51, 0x3D, 0x3D] = example_value"
proof -
  have h1: "JSON_stringify example_json example_value = Inr example_text"
    by (simp add: example_json_def)
  have h2: "JSON_parse example_json example_text = Some example_value"
    by (simp add: example_json_def)
  have h3: "json_text example_text"
    by (simp add: json_text_def example_text_def well_formed_def
          is_high_surrogate_def is_low_surrogate_def)
  show ?thesis
    using C1_pipeline_roundtrip [OF h1 h2 h3, of "CompressOptions (Some 0)" True]
      example_serialize
    by auto
qed
end
